theory Spec2Isabelle
  imports Main "HOL-Library.Word"
begin

section \<open>Consistent Overhead Byte Stuffing: the code of COBS.h\<close>

text \<open>
  The class \<^verbatim>\<open>COBS\<close> has three static functions, \<^verbatim>\<open>encode\<close>, \<^verbatim>\<open>decode\<close> and
  \<^verbatim>\<open>getEncodedBufferSize\<close>. Their integers are \<^verbatim>\<open>uint8_t\<close> and \<^verbatim>\<open>uint16_t\<close>:
  8-bit and 16-bit words, whose \<open>+\<close> wraps around. Where C++ promotes the operands of an
  expression to \<^verbatim>\<open>int\<close> (the sum \<^verbatim>\<open>read_index + code\<close> in \<^verbatim>\<open>decode\<close>, the arithmetic of
  \<^verbatim>\<open>getEncodedBufferSize\<close>), the model computes on \<open>nat\<close> with \<open>unat\<close>: an \<^verbatim>\<open>int\<close> of 32
  bits holds every value that occurs (none exceeds 196605), and a value stored back into a
  \<^verbatim>\<open>uint16_t\<close> is reduced modulo \<open>2 ^ 16\<close> by \<open>of_nat\<close>.

  A buffer, which the code receives as a pointer, is a map from offsets to bytes. The
  model keeps, next to the destination, the list of the offsets stored to, and
  \<^verbatim>\<open>decode\<close> keeps the lists of the source offsets it loads from: these logs are not
  variables of the code, nothing the code computes depends on them, and they are what the
  claims about buffer bounds speak of.
\<close>

type_synonym u8 = "8 word"
type_synonym u16 = "16 word"
type_synonym buffer = "nat \<Rightarrow> u8"

text \<open>The first \<open>n\<close> bytes of a buffer, and a buffer holding a given byte sequence.\<close>

definition bytes :: "buffer \<Rightarrow> nat \<Rightarrow> u8 list" where
  "bytes m n = map m [0..<n]"

definition buffer_of :: "u8 list \<Rightarrow> buffer" where
  "buffer_of xs = (\<lambda>k. if k < length xs then xs ! k else 0)"

text \<open>
  The variables both \<^verbatim>\<open>encode\<close> and \<^verbatim>\<open>decode\<close> have: the two cursors, the code byte
  and the destination (with the log of the offsets stored to).
\<close>

record cursor =
  read_index :: u16
  write_index :: u16
  code :: u8
  destination :: buffer
  writes :: "nat list"

text \<open>\<^verbatim>\<open>destination[k] = v;\<close>\<close>

definition poke :: "u16 \<Rightarrow> u8 \<Rightarrow> 'a cursor_scheme \<Rightarrow> 'a cursor_scheme" where
  "poke k v s = s\<lparr>destination := (destination s)(unat k := v), writes := writes s @ [unat k]\<rparr>"

subsection \<open>Incrementing a word below a bound\<close>

lemma unat_inc_less: "(a::'a::len word) < b \<Longrightarrow> unat (a + 1) = Suc (unat a)"
proof -
  assume "a < b"
  then have "unat a < unat b"
    by (simp add: word_less_nat_alt)
  moreover have "unat b < 2 ^ LENGTH('a)"
    by (rule unsigned_less)
  ultimately have "unat a + 1 < 2 ^ LENGTH('a)"
    by linarith
  then have "unat a + unat (1::'a word) < 2 ^ LENGTH('a)"
    by simp
  then have "unat (a + 1) = unat a + unat (1::'a word)"
    by (simp only: unat_add_lem)
  then show ?thesis
    by simp
qed

subsection \<open>encode\<close>

record enc_state = cursor +
  code_index :: u16

text \<open>
  The three statements that close a run, which the code has six times:
  \<^verbatim>\<open>destination[code_index] = code; code = 1; code_index = write_index++;\<close>
\<close>

definition close_run :: "enc_state \<Rightarrow> enc_state" where
  "close_run s =
     (poke (code_index s) (code s) s)
       \<lparr>code := 1, code_index := write_index s, write_index := write_index s + 1\<rparr>"

text \<open>
  The statements of the \<^verbatim>\<open>else\<close> branch:
  \<^verbatim>\<open>destination[write_index++] = source[read_index++]; code++;
  if(code == 0xFF) { ... }\<close>
\<close>

definition copy_byte :: "buffer \<Rightarrow> enc_state \<Rightarrow> enc_state" where
  "copy_byte source s =
     (let s' = (poke (write_index s) (source (unat (read_index s))) s)
                 \<lparr>write_index := write_index s + 1, read_index := read_index s + 1,
                  code := code s + 1\<rparr>
      in if code s' = 0xFF then close_run s' else s')"

text \<open>
  One of the three \<^verbatim>\<open>while\<close> loops of \<^verbatim>\<open>encode\<close>. They are the same text, over the
  header, the body and the trailer.
\<close>

function encode_segment :: "buffer \<Rightarrow> u16 \<Rightarrow> enc_state \<Rightarrow> enc_state" where
  "encode_segment source size' s =
     (if read_index s < size' then
        (if source (unat (read_index s)) = 0
         then encode_segment source size' ((close_run s)\<lparr>read_index := read_index s + 1\<rparr>)
         else encode_segment source size' (copy_byte source s))
      else s)"
  by pat_completeness auto
termination
proof (relation "measure (\<lambda>(source, size', s). unat size' - unat (read_index s))")
  show "wf (measure (\<lambda>(source, size', s). unat size' - unat (read_index s)))"
    by simp
next
  fix source :: buffer and size' :: u16 and s :: enc_state
  assume lt: "read_index s < size'"
  then have "unat (read_index s + 1) = Suc (unat (read_index s))"
    by (rule unat_inc_less)
  with lt show "((source, size', (close_run s)\<lparr>read_index := read_index s + 1\<rparr>),
                 (source, size', s))
                \<in> measure (\<lambda>(source, size', s). unat size' - unat (read_index s))"
    by (simp add: word_less_nat_alt)
next
  fix source :: buffer and size' :: u16 and s :: enc_state
  assume lt: "read_index s < size'"
  then have "unat (read_index s + 1) = Suc (unat (read_index s))"
    by (rule unat_inc_less)
  moreover have "read_index (copy_byte source s) = read_index s + 1"
    by (simp add: copy_byte_def close_run_def poke_def Let_def)
  ultimately show "((source, size', copy_byte source s), (source, size', s))
                \<in> measure (\<lambda>(source, size', s). unat size' - unat (read_index s))"
    using lt by (simp add: word_less_nat_alt)
qed

declare encode_segment.simps [simp del]

text \<open>
  The initial values of the variables of \<^verbatim>\<open>encode\<close>, the state it has reached at its
  \<^verbatim>\<open>return\<close>, and the value it returns.
\<close>

definition enc_init :: "buffer \<Rightarrow> enc_state" where
  "enc_init dest =
     \<lparr>read_index = 0, write_index = 1, code = 1, destination = dest, writes = [],
      code_index = 0\<rparr>"

definition encode_final ::
  "buffer \<Rightarrow> u16 \<Rightarrow> buffer \<Rightarrow> u16 \<Rightarrow> buffer \<Rightarrow> u16 \<Rightarrow> buffer \<Rightarrow> enc_state" where
  "encode_final sourceHeader sourceHeaderSize sourceBody sourceBodySize
       sourceTrailer sourceTrailerSize dest =
     (let s0 = enc_init dest;
          s1 = encode_segment sourceHeader sourceHeaderSize s0;
          s2 = encode_segment sourceBody sourceBodySize (s1\<lparr>read_index := 0\<rparr>);
          s3 = encode_segment sourceTrailer sourceTrailerSize (s2\<lparr>read_index := 0\<rparr>)
      in poke (code_index s3) (code s3) s3)"

definition encode ::
  "buffer \<Rightarrow> u16 \<Rightarrow> buffer \<Rightarrow> u16 \<Rightarrow> buffer \<Rightarrow> u16 \<Rightarrow> buffer \<Rightarrow> u16" where
  "encode sourceHeader sourceHeaderSize sourceBody sourceBodySize
       sourceTrailer sourceTrailerSize dest =
     write_index (encode_final sourceHeader sourceHeaderSize sourceBody sourceBodySize
       sourceTrailer sourceTrailerSize dest)"

subsection \<open>decode\<close>

text \<open>
  \<open>rejected\<close> records that the \<^verbatim>\<open>return 0\<close> inside the loop was taken.
  \<open>code_reads\<close> logs the source offsets loaded as code bytes, \<open>copy_reads\<close> the ones
  loaded by the copy loop.
\<close>

record dec_state = cursor +
  code_reads :: "nat list"
  copy_reads :: "nat list"
  rejected :: bool

text \<open>
  \<^verbatim>\<open>for(i = 1; i < code; i++) destination[write_index++] = source[read_index++];\<close>
  from the current value of \<open>i\<close> on.
\<close>

function copy_loop :: "buffer \<Rightarrow> u8 \<Rightarrow> dec_state \<Rightarrow> dec_state" where
  "copy_loop source i s =
     (if i < code s then
        copy_loop source (i + 1)
          ((poke (write_index s) (source (unat (read_index s))) s)
             \<lparr>copy_reads := copy_reads s @ [unat (read_index s)],
              write_index := write_index s + 1, read_index := read_index s + 1\<rparr>)
      else s)"
  by pat_completeness auto
termination
proof (relation "measure (\<lambda>(source, i, s). unat (code s) - unat i)")
  show "wf (measure (\<lambda>(source, i, s). unat (code s) - unat i))"
    by simp
next
  fix source :: buffer and i :: u8 and s :: dec_state
  assume lt: "i < code s"
  then have "unat (i + 1) = Suc (unat i)"
    by (rule unat_inc_less)
  with lt show "((source, i + 1,
                  (poke (write_index s) (source (unat (read_index s))) s)
                    \<lparr>copy_reads := copy_reads s @ [unat (read_index s)],
                     write_index := write_index s + 1, read_index := read_index s + 1\<rparr>),
                 (source, i, s))
                \<in> measure (\<lambda>(source, i, s). unat (code s) - unat i)"
    by (simp add: word_less_nat_alt poke_def)
qed

declare copy_loop.simps [simp del]

text \<open>
  The body of the \<^verbatim>\<open>while\<close> loop of \<^verbatim>\<open>decode\<close>, run once from a state with
  \<^verbatim>\<open>read_index < size\<close>. The sum \<^verbatim>\<open>read_index + code\<close> is a sum of \<^verbatim>\<open>int\<close>s.
\<close>

definition decode_iter :: "buffer \<Rightarrow> u16 \<Rightarrow> dec_state \<Rightarrow> dec_state" where
  "decode_iter source size' s =
     (let s1 = s\<lparr>code := source (unat (read_index s)),
                  code_reads := code_reads s @ [unat (read_index s)]\<rparr>
      in if unat (read_index s1) + unat (code s1) > unat size' \<and> code s1 \<noteq> 1
         then s1\<lparr>rejected := True\<rparr>
         else
           (let s2 = copy_loop source 1 (s1\<lparr>read_index := read_index s1 + 1\<rparr>)
            in if code s2 \<noteq> 0xFF \<and> read_index s2 \<noteq> size'
               then (poke (write_index s2) 0 s2)\<lparr>write_index := write_index s2 + 1\<rparr>
               else s2))"

text \<open>
  The copy loop leaves the code byte alone and moves \<^verbatim>\<open>read_index\<close> forward by
  \<open>code - i\<close> when that does not pass the end of the 16-bit range; an iteration of the
  \<^verbatim>\<open>while\<close> loop that does not return moves it forward by at least one and not past
  \<^verbatim>\<open>size\<close>. The \<^verbatim>\<open>while\<close> loop terminates for that reason.
\<close>

lemma copy_loop_fields:
  "code (copy_loop source i s) = code s \<and> rejected (copy_loop source i s) = rejected s
   \<and> code_reads (copy_loop source i s) = code_reads s"
proof (induction source i s rule: copy_loop.induct)
  case (1 source i s)
  then show ?case
    by (subst (1 2 3) copy_loop.simps) (simp add: poke_def)
qed

lemma copy_loop_read_index:
  "unat (read_index s) + (unat (code s) - unat i) < 65536 \<Longrightarrow>
   unat (read_index (copy_loop source i s)) = unat (read_index s) + (unat (code s) - unat i)"
proof (induction source i s rule: copy_loop.induct)
  case (1 source i s)
  show ?case
  proof (cases "i < code s")
    case True
    then have i: "unat (i + 1) = Suc (unat i)" by (rule unat_inc_less)
    from True have lt: "unat i < unat (code s)" by (simp add: word_less_nat_alt)
    have r: "unat (read_index s + 1) = Suc (unat (read_index s))"
      using "1.prems" lt by (simp add: unat_word_ariths)
    show ?thesis using True 1 i lt r
      apply (subst copy_loop.simps)
      apply (simp add: poke_def)
      done
  next
    case False
    then show ?thesis by (subst copy_loop.simps) (simp add: word_less_nat_alt)
  qed
qed

lemma decode_iter_reject:
  "unat size' < unat (read_index s) + unat (source (unat (read_index s))) \<Longrightarrow>
   source (unat (read_index s)) \<noteq> 1 \<Longrightarrow>
   decode_iter source size' s =
     s\<lparr>code := source (unat (read_index s)),
       code_reads := code_reads s @ [unat (read_index s)], rejected := True\<rparr>"
  by (simp add: decode_iter_def Let_def)

lemma decode_iter_accept:
  "unat (read_index s) + unat (source (unat (read_index s))) \<le> unat size'
     \<or> source (unat (read_index s)) = 1 \<Longrightarrow>
   decode_iter source size' s =
     (let s2 = copy_loop source 1
                 (s\<lparr>code := source (unat (read_index s)),
                    code_reads := code_reads s @ [unat (read_index s)],
                    read_index := read_index s + 1\<rparr>)
      in if code s2 \<noteq> 0xFF \<and> read_index s2 \<noteq> size'
         then (poke (write_index s2) 0 s2)\<lparr>write_index := write_index s2 + 1\<rparr>
         else s2)"
  by (auto simp: decode_iter_def Let_def)

lemma decode_iter_rejected:
  "rejected (decode_iter source size' s) \<longleftrightarrow>
     rejected s \<or> (unat size' < unat (read_index s) + unat (source (unat (read_index s)))
                   \<and> source (unat (read_index s)) \<noteq> 1)"
proof (cases "unat size' < unat (read_index s) + unat (source (unat (read_index s)))
                   \<and> source (unat (read_index s)) \<noteq> 1")
  case True
  then show ?thesis by (simp add: decode_iter_reject)
next
  case False
  then have "unat (read_index s) + unat (source (unat (read_index s))) \<le> unat size'
     \<or> source (unat (read_index s)) = 1" by auto
  then show ?thesis using False
    by (auto simp: decode_iter_accept Let_def poke_def copy_loop_fields)
qed

lemma decode_iter_read_index:
  assumes lt: "read_index s < size'"
    and ok: "\<not> rejected (decode_iter source size' s)"
  shows "unat (read_index (decode_iter source size' s))
           = unat (read_index s) + max 1 (unat (source (unat (read_index s))))"
    and "unat (read_index (decode_iter source size' s)) \<le> unat size'"
proof -
  let ?c = "source (unat (read_index s))"
  let ?s1 = "s\<lparr>code := ?c, code_reads := code_reads s @ [unat (read_index s)],
               read_index := read_index s + 1\<rparr>"
  have r: "unat (read_index s) < unat size'"
    using lt by (simp add: word_less_nat_alt)
  have sz: "unat size' < 65536"
    using unsigned_less [of size'] by simp
  have inc: "unat (read_index s + 1) = Suc (unat (read_index s))"
    using lt by (rule unat_inc_less)
  have valid: "unat (read_index s) + unat ?c \<le> unat size' \<or> ?c = 1"
    using ok by (auto simp: decode_iter_rejected)
  then have bound: "unat (read_index s) + max 1 (unat ?c) \<le> unat size'"
    using r by auto
  have "unat (read_index ?s1) + (unat (code ?s1) - unat (1::u8)) < 65536"
    using bound sz inc by simp
  then have "unat (read_index (copy_loop source 1 ?s1))
               = unat (read_index ?s1) + (unat (code ?s1) - unat (1::u8))"
    by (rule copy_loop_read_index)
  then have cl: "unat (read_index (copy_loop source 1 ?s1))
               = unat (read_index s) + max 1 (unat ?c)"
    using inc by (simp add: max_def)
  have "read_index (decode_iter source size' s) = read_index (copy_loop source 1 ?s1)"
    using valid by (simp add: decode_iter_accept Let_def poke_def)
  with cl show "unat (read_index (decode_iter source size' s))
           = unat (read_index s) + max 1 (unat ?c)"
    by simp
  with bound show "unat (read_index (decode_iter source size' s)) \<le> unat size'"
    by simp
qed

text \<open>
  The \<^verbatim>\<open>while\<close> loop of \<^verbatim>\<open>decode\<close>; the \<^verbatim>\<open>return 0\<close> of its body leaves it.
\<close>

function decode_loop :: "buffer \<Rightarrow> u16 \<Rightarrow> dec_state \<Rightarrow> dec_state" where
  "decode_loop source size' s =
     (if \<not> rejected s \<and> read_index s < size'
      then decode_loop source size' (decode_iter source size' s)
      else s)"
  by pat_completeness auto
termination
proof (relation "measure (\<lambda>(source, size', s).
                    if rejected s then 0 else Suc (unat size' - unat (read_index s)))")
  show "wf (measure (\<lambda>(source, size', s).
              if rejected s then 0 else Suc (unat size' - unat (read_index s))))"
    by simp
next
  fix source :: buffer and size' :: u16 and s :: dec_state
  assume a: "\<not> rejected s \<and> read_index s < size'"
  show "((source, size', decode_iter source size' s), (source, size', s))
          \<in> measure (\<lambda>(source, size', s).
                if rejected s then 0 else Suc (unat size' - unat (read_index s)))"
  proof (cases "rejected (decode_iter source size' s)")
    case True
    with a show ?thesis by simp
  next
    case False
    with a decode_iter_read_index [of s size' source] show ?thesis
      by (simp add: word_less_nat_alt)
  qed
qed

declare decode_loop.simps [simp del]

text \<open>
  The state \<^verbatim>\<open>decode\<close> has reached when it returns, and the value it returns. The code
  leaves \<^verbatim>\<open>code\<close> uninitialised and assigns it before any use; the model starts it at 0.
\<close>

definition decode_init :: "buffer \<Rightarrow> dec_state" where
  "decode_init dest =
     \<lparr>read_index = 0, write_index = 0, code = 0, destination = dest, writes = [],
      code_reads = [], copy_reads = [], rejected = False\<rparr>"

definition decode_final :: "buffer \<Rightarrow> u16 \<Rightarrow> buffer \<Rightarrow> dec_state" where
  "decode_final source size' dest = decode_loop source size' (decode_init dest)"

definition decode :: "buffer \<Rightarrow> u16 \<Rightarrow> buffer \<Rightarrow> u16" where
  "decode source size' dest =
     (let s = decode_final source size' dest
      in if rejected s then 0 else write_index s)"

subsection \<open>getEncodedBufferSize\<close>

text \<open>
  \<^verbatim>\<open>uint16_t total = headerSize + sourceSize + trailerSize;
  return total + total / 254 + 1;\<close>
  Both right-hand sides are \<^verbatim>\<open>int\<close> expressions, converted to \<^verbatim>\<open>uint16_t\<close>.
\<close>

definition getEncodedBufferSize :: "u16 \<Rightarrow> u16 \<Rightarrow> u16 \<Rightarrow> u16" where
  "getEncodedBufferSize headerSize sourceSize trailerSize =
     (let total = (of_nat (unat headerSize + unat sourceSize + unat trailerSize) :: u16)
      in of_nat (unat total + unat total div 254 + 1))"

section \<open>What an iteration of decode does\<close>

text \<open>
  Started with \<open>i \<le> code\<close>, the copy loop moves \<open>code - i\<close> bytes from the source at
  \<^verbatim>\<open>read_index\<close> to the destination at \<^verbatim>\<open>write_index\<close>, provided \<^verbatim>\<open>read_index\<close>
  does not wrap around and \<^verbatim>\<open>write_index\<close> is not ahead of it.
\<close>

lemma unat_add_of_nat:
  "unat (a::u16) + n < 65536 \<Longrightarrow> unat (a + of_nat n) = unat a + n"
  by (simp add: unat_word_ariths unat_of_nat)

lemma upt_left: "[a ..< Suc (a + m)] = a # [Suc a ..< Suc (a + m)]"
  by (simp add: upt_conv_Cons del: upt_Suc)

lemma copy_loop_effect:
  "unat (read_index s) + (unat (code s) - unat i) < 65536 \<Longrightarrow>
   unat (write_index s) \<le> unat (read_index s) \<Longrightarrow>
   copy_loop source i s =
     s\<lparr>read_index := read_index s + of_nat (unat (code s) - unat i),
       write_index := write_index s + of_nat (unat (code s) - unat i),
       destination := (\<lambda>k. if k \<in> {unat (write_index s) ..<
                                        unat (write_index s) + (unat (code s) - unat i)}
                             then source (unat (read_index s) + (k - unat (write_index s)))
                             else destination s k),
       writes := writes s
                 @ [unat (write_index s) ..< unat (write_index s) + (unat (code s) - unat i)],
       copy_reads := copy_reads s
                 @ [unat (read_index s) ..< unat (read_index s) + (unat (code s) - unat i)]\<rparr>"
proof (induction source i s rule: copy_loop.induct)
  case (1 source i s)
  show ?case
  proof (cases "i < code s")
    case False
    then have "unat (code s) - unat i = 0"
      by (simp add: word_less_nat_alt)
    with False show ?thesis
      by (subst copy_loop.simps) simp
  next
    case True
    let ?s1 = "(poke (write_index s) (source (unat (read_index s))) s)
             \<lparr>copy_reads := copy_reads s @ [unat (read_index s)],
              write_index := write_index s + 1, read_index := read_index s + 1\<rparr>"
    from True have i: "unat (i + 1) = Suc (unat i)" by (rule unat_inc_less)
    from True have lt: "unat i < unat (code s)" by (simp add: word_less_nat_alt)
    then obtain m where m: "unat (code s) - unat i = Suc m"
      by (metis Suc_diff_Suc)
    have m': "unat (code s) - Suc (unat i) = m"
      using m by simp
    have r: "unat (read_index s + 1) = Suc (unat (read_index s))"
      using "1.prems" lt by (simp add: unat_word_ariths)
    have w: "unat (write_index s + 1) = Suc (unat (write_index s))"
      using "1.prems" lt by (simp add: unat_word_ariths)
    have "copy_loop source (i + 1) ?s1 =
       ?s1\<lparr>read_index := read_index ?s1 + of_nat (unat (code ?s1) - unat (i + 1)),
       write_index := write_index ?s1 + of_nat (unat (code ?s1) - unat (i + 1)),
       destination := (\<lambda>k. if k \<in> {unat (write_index ?s1) ..<
                                        unat (write_index ?s1) + (unat (code ?s1) - unat (i + 1))}
                             then source (unat (read_index ?s1) + (k - unat (write_index ?s1)))
                             else destination ?s1 k),
       writes := writes ?s1
                 @ [unat (write_index ?s1) ..< unat (write_index ?s1) + (unat (code ?s1) - unat (i + 1))],
       copy_reads := copy_reads ?s1
                 @ [unat (read_index ?s1) ..< unat (read_index ?s1) + (unat (code ?s1) - unat (i + 1))]\<rparr>"
      using True "1.prems" i lt r w
      by (intro "1.IH") (simp_all add: poke_def)
    then have "copy_loop source i s = 
       ?s1\<lparr>read_index := read_index ?s1 + of_nat (unat (code ?s1) - unat (i + 1)),
       write_index := write_index ?s1 + of_nat (unat (code ?s1) - unat (i + 1)),
       destination := (\<lambda>k. if k \<in> {unat (write_index ?s1) ..<
                                        unat (write_index ?s1) + (unat (code ?s1) - unat (i + 1))}
                             then source (unat (read_index ?s1) + (k - unat (write_index ?s1)))
                             else destination ?s1 k),
       writes := writes ?s1
                 @ [unat (write_index ?s1) ..< unat (write_index ?s1) + (unat (code ?s1) - unat (i + 1))],
       copy_reads := copy_reads ?s1
                 @ [unat (read_index ?s1) ..< unat (read_index ?s1) + (unat (code ?s1) - unat (i + 1))]\<rparr>"
      using True by (subst copy_loop.simps) simp
    also have "\<dots> = s\<lparr>read_index := read_index s + of_nat (unat (code s) - unat i),
       write_index := write_index s + of_nat (unat (code s) - unat i),
       destination := (\<lambda>k. if k \<in> {unat (write_index s) ..<
                                        unat (write_index s) + (unat (code s) - unat i)}
                             then source (unat (read_index s) + (k - unat (write_index s)))
                             else destination s k),
       writes := writes s
                 @ [unat (write_index s) ..< unat (write_index s) + (unat (code s) - unat i)],
       copy_reads := copy_reads s
                 @ [unat (read_index s) ..< unat (read_index s) + (unat (code s) - unat i)]\<rparr>"
    proof (rule dec_state.equality)
      show "destination (?s1\<lparr>read_index := read_index ?s1 + of_nat (unat (code ?s1) - unat (i + 1)),
       write_index := write_index ?s1 + of_nat (unat (code ?s1) - unat (i + 1)),
       destination := (\<lambda>k. if k \<in> {unat (write_index ?s1) ..<
                                        unat (write_index ?s1) + (unat (code ?s1) - unat (i + 1))}
                             then source (unat (read_index ?s1) + (k - unat (write_index ?s1)))
                             else destination ?s1 k),
       writes := writes ?s1
                 @ [unat (write_index ?s1) ..< unat (write_index ?s1) + (unat (code ?s1) - unat (i + 1))],
       copy_reads := copy_reads ?s1
                 @ [unat (read_index ?s1) ..< unat (read_index ?s1) + (unat (code ?s1) - unat (i + 1))]\<rparr>)
        = destination (s\<lparr>read_index := read_index s + of_nat (unat (code s) - unat i),
       write_index := write_index s + of_nat (unat (code s) - unat i),
       destination := (\<lambda>k. if k \<in> {unat (write_index s) ..<
                                        unat (write_index s) + (unat (code s) - unat i)}
                             then source (unat (read_index s) + (k - unat (write_index s)))
                             else destination s k),
       writes := writes s
                 @ [unat (write_index s) ..< unat (write_index s) + (unat (code s) - unat i)],
       copy_reads := copy_reads s
                 @ [unat (read_index s) ..< unat (read_index s) + (unat (code s) - unat i)]\<rparr>)"
        by (rule ext) (auto simp: poke_def i r w m m' intro!: arg_cong [where f = source])
    qed (simp_all add: poke_def i r w m m' upt_left del: upt_Suc)
    finally show ?thesis .
  qed
qed

text \<open>
  An iteration of the \<^verbatim>\<open>while\<close> loop that passes the validation, from \<open>r\<close> =
  \<^verbatim>\<open>read_index\<close> and \<open>w\<close> = \<^verbatim>\<open>write_index\<close> with the code byte \<open>c\<close>: it copies
  \<open>n = c - 1\<close> bytes (none for \<open>c = 0\<close>) and then stores a zero when \<open>z\<close> holds.
\<close>

lemma decode_iter_effect:
  assumes lt: "read_index s < size'"
    and wr: "unat (write_index s) \<le> unat (read_index s)"
    and acc: "unat (read_index s) + unat (source (unat (read_index s))) \<le> unat size'
                \<or> source (unat (read_index s)) = 1"
    and r: "r = unat (read_index s)" and w: "w = unat (write_index s)"
    and c: "c = source r" and n: "n = unat c - 1"
    and z: "z \<longleftrightarrow> c \<noteq> 0xFF \<and> r + 1 + n \<noteq> unat size'"
  shows "unat (read_index (decode_iter source size' s)) = r + 1 + n"
    and "unat (write_index (decode_iter source size' s)) = w + n + (if z then 1 else 0)"
    and "writes (decode_iter source size' s) = writes s @ [w ..< w + n] @ (if z then [w + n] else [])"
    and "code_reads (decode_iter source size' s) = code_reads s @ [r]"
    and "copy_reads (decode_iter source size' s) = copy_reads s @ [r + 1 ..< r + 1 + n]"
    and "rejected (decode_iter source size' s) = rejected s"
    and "destination (decode_iter source size' s) =
           (\<lambda>k. if k \<in> {w ..< w + n} then source (r + 1 + (k - w))
                else if k = w + n \<and> z then 0 else destination s k)"
proof -
  let ?s1 = "s\<lparr>code := c, code_reads := code_reads s @ [r], read_index := read_index s + 1\<rparr>"
  have rlt: "r < unat size'"
    using lt r by (simp add: word_less_nat_alt)
  have sz: "unat size' < 65536"
    using unsigned_less [of size'] by simp
  have inc: "unat (read_index s + 1) = Suc r"
    using lt r by (simp add: unat_inc_less)
  have bound: "r + 1 + n \<le> unat size'"
    using acc rlt r c n by auto
  have pre1: "unat (read_index ?s1) + (unat (code ?s1) - unat (1::u8)) < 65536"
    using bound sz inc n by simp
  have pre2: "unat (write_index ?s1) \<le> unat (read_index ?s1)"
    using wr inc r by simp
  define s2 where "s2 = copy_loop source 1 ?s1"
  have s2: "read_index s2 = read_index s + 1 + of_nat n"
    "write_index s2 = write_index s + of_nat n"
    "code s2 = c"
    "writes s2 = writes s @ [w ..< w + n]"
    "copy_reads s2 = copy_reads s @ [r + 1 ..< r + 1 + n]"
    "code_reads s2 = code_reads s @ [r]"
    "rejected s2 = rejected s"
    "destination s2 = (\<lambda>k. if k \<in> {w ..< w + n} then source (r + 1 + (k - w))
                             else destination s k)"
    unfolding s2_def copy_loop_effect [OF pre1 pre2, of source]
    by (simp_all add: n w inc cong: if_cong)
  have r2: "unat (read_index s + 1 + of_nat n) = r + 1 + n"
    using bound sz inc unat_add_of_nat [of "read_index s + 1" n] by simp
  have w2: "unat (write_index s + of_nat n) = w + n"
    using bound sz wr r w unat_add_of_nat [of "write_index s" n] by simp
  have w3: "unat (write_index s + of_nat n + 1) = w + n + 1"
    using bound sz wr r w unat_add_of_nat [of "write_index s" "n + 1"] by (simp add: ac_simps)
  have zz: "z \<longleftrightarrow> code s2 \<noteq> 0xFF \<and> read_index s2 \<noteq> size'"
    unfolding s2 z using r2 by (metis word_unat_eq_iff)
  have "decode_iter source size' s =
     (let s2 = copy_loop source 1 ?s1
      in if code s2 \<noteq> 0xFF \<and> read_index s2 \<noteq> size'
         then (poke (write_index s2) 0 s2)\<lparr>write_index := write_index s2 + 1\<rparr>
         else s2)"
    using acc r c by (simp add: decode_iter_accept)
  then have it: "decode_iter source size' s =
     (if z then (poke (write_index s2) 0 s2)\<lparr>write_index := write_index s2 + 1\<rparr> else s2)"
    by (simp add: Let_def s2_def [symmetric] zz)
  show "unat (read_index (decode_iter source size' s)) = r + 1 + n"
    by (simp add: it poke_def s2 r2)
  show "unat (write_index (decode_iter source size' s)) = w + n + (if z then 1 else 0)"
    by (simp add: it poke_def s2 w2 w3)
  show "writes (decode_iter source size' s) = writes s @ [w ..< w + n] @ (if z then [w + n] else [])"
    by (simp add: it poke_def s2 w2)
  show "code_reads (decode_iter source size' s) = code_reads s @ [r]"
    by (simp add: it poke_def s2)
  show "copy_reads (decode_iter source size' s) = copy_reads s @ [r + 1 ..< r + 1 + n]"
    by (simp add: it poke_def s2)
  show "rejected (decode_iter source size' s) = rejected s"
    by (simp add: it poke_def s2)
  show "destination (decode_iter source size' s) =
           (\<lambda>k. if k \<in> {w ..< w + n} then source (r + 1 + (k - w))
                else if k = w + n \<and> z then 0 else destination s k)"
    by (auto simp: it poke_def s2 w2 fun_eq_iff)
qed

section \<open>The sizing formula\<close>

lemma mod_Suc_add_left: "Suc (a mod c + b) mod c = Suc (a + b) mod c"
  by (metis add_Suc_right mod_add_left_eq)

lemma unat_getEncodedBufferSize:
  "unat (getEncodedBufferSize h b t) =
     ((unat h + unat b + unat t) mod 65536
        + (unat h + unat b + unat t) mod 65536 div 254 + 1) mod 65536"
  by (simp only: getEncodedBufferSize_def Let_def unat_of_nat) simp

lemma getEncodedBufferSize_word:
  "getEncodedBufferSize h b t = (h + b + t) + (h + b + t) div 254 + 1"
proof -
  have "unat ((h + b + t) + (h + b + t) div 254 + 1) =
     ((unat h + unat b + unat t) mod 65536
        + (unat h + unat b + unat t) mod 65536 div 254 + 1) mod 65536"
    by (simp add: unat_word_ariths unat_div mod_simps mod_Suc_add_left)
  then have "unat (getEncodedBufferSize h b t) = unat ((h + b + t) + (h + b + t) div 254 + 1)"
    by (simp only: unat_getEncodedBufferSize)
  then show ?thesis
    by (simp only: word_unat_eq_iff)
qed

lemma getEncodedBufferSize_exact:
  "unat h + unat b + unat t + (unat h + unat b + unat t) div 254 + 1 < 65536 \<Longrightarrow>
   unat (getEncodedBufferSize h b t)
     = unat h + unat b + unat t + (unat h + unat b + unat t) div 254 + 1"
  by (simp only: unat_getEncodedBufferSize) simp

text \<open>
  Claim C6. For all \<open>headerSize\<close>, \<open>sourceSize\<close> and \<open>trailerSize\<close>,
  \<open>getEncodedBufferSize\<close> returns \<open>total + total / 254 + 1\<close> for
  \<open>total = headerSize + sourceSize + trailerSize\<close>, both sums reduced modulo \<open>2 ^ 16\<close>
  (the result is the one of 16-bit unsigned arithmetic throughout); and when the exact
  integer \<open>total + total div 254 + 1\<close> of the three sizes is below \<open>2 ^ 16\<close>, the value
  returned is that integer.
\<close>

theorem getEncodedBufferSize_formula:
  "(let total = (unat headerSize + unat sourceSize + unat trailerSize) mod 65536
    in unat (getEncodedBufferSize headerSize sourceSize trailerSize)
         = (total + total div 254 + 1) mod 65536)
   \<and> getEncodedBufferSize headerSize sourceSize trailerSize
         = (headerSize + sourceSize + trailerSize)
             + (headerSize + sourceSize + trailerSize) div 254 + 1
   \<and> (let total = unat headerSize + unat sourceSize + unat trailerSize
      in total + total div 254 + 1 < 65536 \<longrightarrow>
         unat (getEncodedBufferSize headerSize sourceSize trailerSize)
           = total + total div 254 + 1)"
  unfolding Let_def
  using unat_getEncodedBufferSize [of headerSize sourceSize trailerSize]
    getEncodedBufferSize_word [of headerSize sourceSize trailerSize]
    getEncodedBufferSize_exact [of headerSize sourceSize trailerSize]
  by blast

theorem getEncodedBufferSize_formula_witness:
  "unat (200::u16) + unat (300::u16) + unat (8::u16) = 508
   \<and> (508::nat) + 508 div 254 + 1 < 65536
   \<and> unat (getEncodedBufferSize 200 300 8) = 511
   \<and> getEncodedBufferSize 200 300 8 = 511"
  using getEncodedBufferSize_formula [of 200 300 8]
  by (simp add: Let_def)

section \<open>The empty message\<close>

text \<open>
  Claim C8. With the three sizes zero, \<open>encode\<close> returns 1 and stores 1 at
  \<open>destination[0]\<close> (its only store); \<open>decode\<close> of the one byte 1 returns 0, by the
  \<^verbatim>\<open>return write_index\<close> at its end and with no store.
\<close>

theorem empty_input:
  "encode sourceHeader 0 sourceBody 0 sourceTrailer 0 dest = 1
   \<and> destination (encode_final sourceHeader 0 sourceBody 0 sourceTrailer 0 dest) 0 = 1
   \<and> writes (encode_final sourceHeader 0 sourceBody 0 sourceTrailer 0 dest) = [0]
   \<and> decode (buffer_of [1]) 1 dest = 0
   \<and> \<not> rejected (decode_final (buffer_of [1]) 1 dest)
   \<and> writes (decode_final (buffer_of [1]) 1 dest) = []"
  by (simp add: encode_def encode_final_def enc_init_def encode_segment.simps poke_def
      decode_def decode_final_def decode_init_def decode_loop.simps decode_iter_def
      copy_loop.simps
      Let_def buffer_of_def)

section \<open>The bounds of decode\<close>

text \<open>
  What holds of the initial state and is kept by every iteration of the loop body holds
  of the state the loop ends in.
\<close>

lemma decode_loop_invariant:
  assumes "P s"
    and "\<And>s. P s \<Longrightarrow> \<not> rejected s \<Longrightarrow> read_index s < size' \<Longrightarrow>
                 P (decode_iter source size' s)"
  shows "P (decode_loop source size' s)"
  using assms
proof (induction source size' s rule: decode_loop.induct)
  case (1 source size' s)
  show ?case
  proof (cases "\<not> rejected s \<and> read_index s < size'")
    case True
    then have "P (decode_iter source size' s)"
      using "1.prems" by blast
    then have "P (decode_loop source size' (decode_iter source size' s))"
      using True "1.prems"(2) by (intro "1.IH") simp_all
    then show ?thesis
      using True by (subst decode_loop.simps) simp
  next
    case False
    then show ?thesis
      using "1.prems"(1) by (subst decode_loop.simps) auto
  qed
qed

text \<open>
  The invariant of the bounds: \<^verbatim>\<open>write_index\<close> is not ahead of \<^verbatim>\<open>read_index\<close>, which is
  not past \<^verbatim>\<open>size\<close>, and every offset stored to or loaded from is below \<^verbatim>\<open>size\<close>.
\<close>

definition within :: "u16 \<Rightarrow> dec_state \<Rightarrow> bool" where
  "within size' s \<longleftrightarrow>
     unat (write_index s) \<le> unat (read_index s) \<and> unat (read_index s) \<le> unat size'
     \<and> (\<forall>k\<in>set (writes s). k < unat size')
     \<and> (\<forall>k\<in>set (code_reads s). k < unat size')
     \<and> (\<forall>k\<in>set (copy_reads s). k < unat size')"

lemma within_iter:
  assumes inv: "within size' s" and run: "read_index s < size'"
  shows "within size' (decode_iter source size' s)"
proof (cases "unat size' < unat (read_index s) + unat (source (unat (read_index s)))
                   \<and> source (unat (read_index s)) \<noteq> 1")
  case True
  then have "decode_iter source size' s =
     s\<lparr>code := source (unat (read_index s)),
       code_reads := code_reads s @ [unat (read_index s)], rejected := True\<rparr>"
    by (simp add: decode_iter_reject)
  then show ?thesis
    using inv run by (simp add: within_def word_less_nat_alt)
next
  case False
  then have acc: "unat (read_index s) + unat (source (unat (read_index s))) \<le> unat size'
     \<or> source (unat (read_index s)) = 1" by auto
  have wr: "unat (write_index s) \<le> unat (read_index s)"
    using inv by (simp add: within_def)
  define r where "r = unat (read_index s)"
  define w where "w = unat (write_index s)"
  define c where "c = source r"
  define n where "n = unat c - 1"
  define z where "z \<longleftrightarrow> c \<noteq> 0xFF \<and> r + 1 + n \<noteq> unat size'"
  note eff = decode_iter_effect [OF run wr acc r_def w_def c_def n_def z_def]
  have rlt: "r < unat size'"
    using run r_def by (simp add: word_less_nat_alt)
  have bound: "r + 1 + n \<le> unat size'"
    using acc rlt r_def c_def n_def by auto
  have wr': "w \<le> r" using wr r_def w_def by simp
  show ?thesis
    unfolding within_def eff
    using inv bound wr' rlt z_def by (auto simp: within_def)
qed

lemma within_final: "within size' (decode_final source size' dest)"
  unfolding decode_final_def
proof (rule decode_loop_invariant)
  show "within size' (decode_init dest)"
    by (simp add: within_def decode_init_def)
qed (rule within_iter)


text \<open>
  The log of the stores is complete: the destination is what it was at every offset
  that is not in the log.
\<close>

definition untouched :: "buffer \<Rightarrow> dec_state \<Rightarrow> bool" where
  "untouched dest s \<longleftrightarrow>
     unat (write_index s) \<le> unat (read_index s)
     \<and> (\<forall>k. k \<notin> set (writes s) \<longrightarrow> destination s k = dest k)"

lemma untouched_iter:
  assumes inv: "untouched dest s" and run: "read_index s < size'"
  shows "untouched dest (decode_iter source size' s)"
proof (cases "unat size' < unat (read_index s) + unat (source (unat (read_index s)))
                   \<and> source (unat (read_index s)) \<noteq> 1")
  case True
  then have "decode_iter source size' s =
     s\<lparr>code := source (unat (read_index s)),
       code_reads := code_reads s @ [unat (read_index s)], rejected := True\<rparr>"
    by (simp add: decode_iter_reject)
  then show ?thesis
    using inv by (simp add: untouched_def)
next
  case False
  then have acc: "unat (read_index s) + unat (source (unat (read_index s))) \<le> unat size'
     \<or> source (unat (read_index s)) = 1" by auto
  have wr: "unat (write_index s) \<le> unat (read_index s)"
    using inv by (simp add: untouched_def)
  define r where "r = unat (read_index s)"
  define w where "w = unat (write_index s)"
  define c where "c = source r"
  define n where "n = unat c - 1"
  define z where "z \<longleftrightarrow> c \<noteq> 0xFF \<and> r + 1 + n \<noteq> unat size'"
  note eff = decode_iter_effect [OF run wr acc r_def w_def c_def n_def z_def]
  have wr': "w \<le> r" using wr r_def w_def by simp
  show ?thesis
    unfolding untouched_def eff
    using inv wr' by (auto simp: untouched_def)
qed

lemma untouched_final: "untouched dest (decode_final source size' dest)"
  unfolding decode_final_def
proof (rule decode_loop_invariant)
  show "untouched dest (decode_init dest)"
    by (simp add: untouched_def decode_init_def)
qed (rule untouched_iter)

text \<open>
  Claim C7. For every source buffer and size, every destination offset \<open>decode\<close>
  stores to is below \<open>size\<close> (the destination is unchanged from \<open>size\<close> on), and the
  length it returns is at most \<open>size\<close>.
\<close>

theorem decode_never_expands:
  "(\<forall>k\<in>set (writes (decode_final source size' dest)). k < unat size')
   \<and> (\<forall>k. unat size' \<le> k \<longrightarrow> destination (decode_final source size' dest) k = dest k)
   \<and> decode source size' dest \<le> size'"
proof -
  have w: "within size' (decode_final source size' dest)"
    by (rule within_final)
  have u: "untouched dest (decode_final source size' dest)"
    by (rule untouched_final)
  have below: "\<forall>k\<in>set (writes (decode_final source size' dest)). k < unat size'"
    using w by (simp add: within_def)
  moreover have
    "\<forall>k. unat size' \<le> k \<longrightarrow> destination (decode_final source size' dest) k = dest k"
  proof (intro allI impI)
    fix k
    assume "unat size' \<le> k"
    then have "k \<notin> set (writes (decode_final source size' dest))"
      using below by auto
    then show "destination (decode_final source size' dest) k = dest k"
      using u by (simp add: untouched_def)
  qed
  moreover have "decode source size' dest \<le> size'"
    using w by (simp add: decode_def Let_def within_def word_le_nat_alt)
  ultimately show ?thesis by blast
qed

theorem decode_never_expands_witness:
  "writes (decode_final (buffer_of [3, 1, 2, 2, 3, 2, 4]) 7 (\<lambda>k. 9)) = [0, 1, 2, 3, 4, 5]
   \<and> unat (7 :: u16) = 7
   \<and> destination (decode_final (buffer_of [3, 1, 2, 2, 3, 2, 4]) 7 (\<lambda>k. 9)) 7 = 9
   \<and> decode (buffer_of [3, 1, 2, 2, 3, 2, 4]) 7 (\<lambda>k. 9) = 6"
  using decode_never_expands [of "buffer_of [3, 1, 2, 2, 3, 2, 4]" 7 "\<lambda>k. 9"]
  by (simp add: decode_def decode_final_def decode_init_def decode_loop.simps decode_iter_def
      copy_loop.simps poke_def Let_def buffer_of_def)

section \<open>The source offsets decode loads from\<close>

lemma decode_final_reads_below:
  "\<forall>k\<in>set (code_reads (decode_final source size' dest))
        \<union> set (copy_reads (decode_final source size' dest)). k < unat size'"
  using within_final [of size' source dest] by (auto simp: within_def)

text \<open>
  Claim C9, amended. The claim is that some input makes the copy loop load from a source
  offset at or past \<open>size\<close>. There is none: with the sum \<^verbatim>\<open>read_index + code\<close> computed
  in \<^verbatim>\<open>int\<close>, a code byte that passes the validation has either \<open>read_index + code \<le> size\<close>
  or the value 1, for which the copy loop does not run. Every source offset \<open>decode\<close>
  loads from, in the copy loop or as a code byte, is below \<open>size\<close>.
\<close>

theorem decode_reads_guarded:
  "(\<forall>k\<in>set (copy_reads (decode_final source size' dest)). k < unat size')
   \<and> (\<forall>k\<in>set (code_reads (decode_final source size' dest)). k < unat size')"
  using decode_final_reads_below [of source size' dest] by blast

theorem decode_reads_guarded_witness:
  "copy_reads (decode_final (buffer_of [3, 1, 2, 2, 3, 2, 4]) 7 (\<lambda>k. 9)) = [1, 2, 4, 6]
   \<and> code_reads (decode_final (buffer_of [3, 1, 2, 2, 3, 2, 4]) 7 (\<lambda>k. 9)) = [0, 3, 5]
   \<and> unat (7 :: u16) = 7"
  using decode_reads_guarded [of "buffer_of [3, 1, 2, 2, 3, 2, 4]" 7 "\<lambda>k. 9"]
  by (simp add: decode_def decode_final_def decode_init_def decode_loop.simps decode_iter_def
      copy_loop.simps poke_def Let_def buffer_of_def)

text \<open>
  The claim C9 as it is stated fails: no source, size and destination make the copy loop
  load from an offset at or past \<open>size\<close>.
\<close>

theorem no_copy_read_past_size:
  "\<not> (\<exists>source size' dest. \<exists>k\<in>set (copy_reads (decode_final source size' dest)).
         unat size' \<le> k)"
proof
  assume "\<exists>source size' dest. \<exists>k\<in>set (copy_reads (decode_final source size' dest)).
            unat size' \<le> k"
  then obtain source size' dest k
    where k: "k \<in> set (copy_reads (decode_final source size' dest))" "unat size' \<le> k"
    by blast
  from k(1) have "k < unat size'"
    using decode_final_reads_below [of source size' dest] by blast
  with k(2) show False by simp
qed

section \<open>The failure exit of decode\<close>

lemma decode_iter_code_reads:
  "code_reads (decode_iter source size' s) = code_reads s @ [unat (read_index s)]"
proof (cases "unat size' < unat (read_index s) + unat (source (unat (read_index s)))
                   \<and> source (unat (read_index s)) \<noteq> 1")
  case True
  then show ?thesis by (simp add: decode_iter_reject)
next
  case False
  then have "unat (read_index s) + unat (source (unat (read_index s))) \<le> unat size'
     \<or> source (unat (read_index s)) = 1" by auto
  then show ?thesis
    by (simp add: decode_iter_accept Let_def poke_def copy_loop_fields)
qed

lemma rejected_iff_final:
  "rejected (decode_final source size' dest) \<longleftrightarrow>
     (\<exists>r\<in>set (code_reads (decode_final source size' dest)).
        unat size' < r + unat (source r) \<and> source r \<noteq> 1)"
  unfolding decode_final_def
proof (rule decode_loop_invariant)
  show "rejected (decode_init dest) \<longleftrightarrow>
     (\<exists>r\<in>set (code_reads (decode_init dest)).
        unat size' < r + unat (source r) \<and> source r \<noteq> 1)"
    by (simp add: decode_init_def)
next
  fix s :: dec_state
  assume "rejected s \<longleftrightarrow>
            (\<exists>r\<in>set (code_reads s). unat size' < r + unat (source r) \<and> source r \<noteq> 1)"
    and "\<not> rejected s"
  then show "rejected (decode_iter source size' s) \<longleftrightarrow>
     (\<exists>r\<in>set (code_reads (decode_iter source size' s)).
        unat size' < r + unat (source r) \<and> source r \<noteq> 1)"
    by (auto simp: decode_iter_rejected decode_iter_code_reads)
qed

text \<open>
  The value \<open>decode\<close> returns is 0 in three cases only: the \<^verbatim>\<open>return 0\<close> inside the
  loop was taken; \<open>size\<close> is 0; or \<open>size\<close> is 1 and the one byte is 0 or 1. In every
  other run that ends at the last \<^verbatim>\<open>return\<close>, the first iteration has already moved
  \<^verbatim>\<open>write_index\<close> forward, and no later one moves it back.
\<close>

lemma decode_loop_write_mono:
  assumes "unat (write_index s) \<le> unat (read_index s)"
  shows "unat (write_index s) \<le> unat (write_index (decode_loop source size' s))"
proof -
  let ?P = "\<lambda>s'. unat (write_index s') \<le> unat (read_index s')
                \<and> unat (write_index s) \<le> unat (write_index s')"
  have "?P (decode_loop source size' s)"
  proof (rule decode_loop_invariant)
    show "?P s"
      using assms by simp
  next
    fix t :: dec_state
    assume inv: "?P t" and run: "read_index t < size'"
    show "?P (decode_iter source size' t)"
    proof (cases "unat size' < unat (read_index t) + unat (source (unat (read_index t)))
                   \<and> source (unat (read_index t)) \<noteq> 1")
      case True
      then have "decode_iter source size' t =
         t\<lparr>code := source (unat (read_index t)),
           code_reads := code_reads t @ [unat (read_index t)], rejected := True\<rparr>"
        by (simp add: decode_iter_reject)
      then show ?thesis
        using inv by simp
    next
      case False
      then have acc: "unat (read_index t) + unat (source (unat (read_index t))) \<le> unat size'
         \<or> source (unat (read_index t)) = 1" by auto
      have wr: "unat (write_index t) \<le> unat (read_index t)"
        using inv by simp
      define r where "r = unat (read_index t)"
      define w where "w = unat (write_index t)"
      define c where "c = source r"
      define n where "n = unat c - 1"
      define z where "z \<longleftrightarrow> c \<noteq> 0xFF \<and> r + 1 + n \<noteq> unat size'"
      note eff = decode_iter_effect [OF run wr acc r_def w_def c_def n_def z_def]
      have "w \<le> r"
        using wr r_def w_def by simp
      then show ?thesis
        unfolding eff(1) eff(2) using inv w_def by auto
    qed
  qed
  then show ?thesis
    by simp
qed

lemma u8_le_one: "unat (c :: u8) - 1 = 0 \<Longrightarrow> c = 0 \<or> c = 1"
proof -
  assume "unat c - 1 = 0"
  then have "unat c = 0 \<or> unat c = unat (1 :: u8)"
    by auto
  then show ?thesis
    by (metis unsigned_eq_0_iff word_unat_eq_iff)
qed

lemma decode_zero_iff:
  "decode source size' dest = 0 \<longleftrightarrow>
     rejected (decode_final source size' dest) \<or> size' = 0
     \<or> (size' = 1 \<and> (source 0 = 0 \<or> source 0 = 1))"
proof (cases "size' = 0")
  case True
  then have "decode_final source size' dest = decode_init dest"
    by (simp add: decode_final_def decode_loop.simps)
  with True show ?thesis
    by (simp add: decode_def Let_def decode_init_def)
next
  case nonempty: False
  let ?s0 = "decode_init dest"
  let ?s1 = "decode_iter source size' ?s0"
  let ?f = "decode_final source size' dest"
  have run: "read_index ?s0 < size'"
    using nonempty by (simp add: decode_init_def word_neq_0_conv)
  then have f: "?f = decode_loop source size' ?s1"
    unfolding decode_final_def by (subst decode_loop.simps) (simp add: decode_init_def)
  show ?thesis
  proof (cases "rejected ?f")
    case True
    then show ?thesis
      by (simp add: decode_def Let_def)
  next
    case ok: False
    have ok1: "\<not> rejected ?s1"
    proof
      assume "rejected ?s1"
      then have "decode_loop source size' ?s1 = ?s1"
        by (subst decode_loop.simps) simp
      with \<open>rejected ?s1\<close> f ok show False
        by simp
    qed
    then have acc: "unat (read_index ?s0) + unat (source (unat (read_index ?s0))) \<le> unat size'
                \<or> source (unat (read_index ?s0)) = 1"
      by (auto simp: decode_iter_rejected)
    have wr: "unat (write_index ?s0) \<le> unat (read_index ?s0)"
      by (simp add: decode_init_def)
    have r: "0 = unat (read_index ?s0)" and w: "0 = unat (write_index ?s0)"
      by (simp_all add: decode_init_def)
    define c where "c = source 0"
    define n where "n = unat c - 1"
    define z where "z \<longleftrightarrow> c \<noteq> 0xFF \<and> 0 + 1 + n \<noteq> unat size'"
    note eff = decode_iter_effect [OF run wr acc r w c_def n_def z_def]
    have r1: "unat (read_index ?s1) = 1 + n" and w1: "unat (write_index ?s1) = n + (if z then 1 else 0)"
      using eff(1) eff(2) by simp_all
    have mono: "unat (write_index ?s1) \<le> unat (write_index ?f)"
      unfolding f using r1 w1 by (intro decode_loop_write_mono) simp
    have ret: "decode source size' dest = write_index ?f"
      using ok by (simp add: decode_def Let_def)
    have "write_index ?f = 0 \<longleftrightarrow> size' = 1 \<and> (c = 0 \<or> c = 1)"
    proof
      assume "write_index ?f = 0"
      then have "unat (write_index ?s1) = 0"
        using mono by simp
      then have n0: "n = 0" and nz: "\<not> z"
        using w1 by (simp_all split: if_splits)
      from n0 have c01: "c = 0 \<or> c = 1"
        unfolding n_def by (rule u8_le_one)
      then have "c \<noteq> 0xFF"
        by auto
      with nz n0 have "unat size' = unat (1 :: u16)"
        by (simp add: z_def)
      then have "size' = 1"
        by (simp only: word_unat_eq_iff)
      with c01 show "size' = 1 \<and> (c = 0 \<or> c = 1)"
        by simp
    next
      assume a: "size' = 1 \<and> (c = 0 \<or> c = 1)"
      then have n0: "n = 0"
        by (auto simp: n_def)
      with a have "\<not> z"
        by (simp add: z_def)
      with n0 have "unat (write_index ?s1) = 0" "unat (read_index ?s1) = unat size'"
        using w1 r1 a by simp_all
      then have "write_index ?s1 = 0" "\<not> read_index ?s1 < size'"
        by (simp_all add: word_less_nat_alt unsigned_eq_0_iff)
      then have "decode_loop source size' ?s1 = ?s1"
        by (subst decode_loop.simps) simp
      with f \<open>write_index ?s1 = 0\<close> show "write_index ?f = 0"
        by simp
    qed
    with ret ok nonempty show ?thesis
      by (simp add: c_def)
  qed
qed

text \<open>
  Claim C4, amended. \<open>decode\<close> returns 0 if and only if one of the code bytes it loads,
  \<open>c\<close> at the offset \<open>r\<close>, has \<open>r + c > size\<close> and \<open>c \<noteq> 1\<close>, or the input decodes to the
  empty message: \<open>size\<close> is 0, or \<open>size\<close> is 1 and the byte is 0 or 1. The first of these
  is exactly when the \<^verbatim>\<open>return 0\<close> inside the loop is taken, so a code byte 1 never
  causes it; and \<open>decode([5, 1, 2], 3)\<close> returns 0 that way.
\<close>

theorem decode_failure_exit:
  "(decode source size' dest = 0 \<longleftrightarrow>
      (\<exists>r\<in>set (code_reads (decode_final source size' dest)).
         r + unat (source r) > unat size' \<and> source r \<noteq> 1)
      \<or> size' = 0 \<or> (size' = 1 \<and> (source 0 = 0 \<or> source 0 = 1)))
   \<and> (rejected (decode_final source size' dest) \<longleftrightarrow>
      (\<exists>r\<in>set (code_reads (decode_final source size' dest)).
         r + unat (source r) > unat size' \<and> source r \<noteq> 1))
   \<and> rejected (decode_final (buffer_of [5, 1, 2]) 3 dest)
   \<and> decode (buffer_of [5, 1, 2]) 3 dest = 0"
proof -
  have "rejected (decode_final (buffer_of [5, 1, 2]) 3 dest)"
    by (simp add: decode_final_def decode_init_def decode_loop.simps decode_iter_def
        Let_def buffer_of_def)
  moreover from this have "decode (buffer_of [5, 1, 2]) 3 dest = 0"
    by (simp add: decode_def Let_def)
  ultimately show ?thesis
    using rejected_iff_final [of source size' dest] decode_zero_iff [of source size' dest]
    by blast
qed

theorem decode_failure_exit_witness:
  "code_reads (decode_final (buffer_of [5, 1, 2]) 3 (\<lambda>k. 0)) = [0]
   \<and> 0 + unat (buffer_of [5, 1, 2] 0) > unat (3 :: u16)
   \<and> buffer_of [5, 1, 2] 0 \<noteq> 1
   \<and> rejected (decode_final (buffer_of [5, 1, 2]) 3 (\<lambda>k. 0))
   \<and> decode (buffer_of [5, 1, 2]) 3 (\<lambda>k. 0) = 0
   \<and> decode (buffer_of [3, 1, 2, 2, 3, 2, 4]) 7 (\<lambda>k. 9) = 6
   \<and> \<not> rejected (decode_final (buffer_of [3, 1, 2, 2, 3, 2, 4]) 7 (\<lambda>k. 9))"
proof -
  have "code_reads (decode_final (buffer_of [5, 1, 2]) 3 (\<lambda>k. 0)) = [0]
   \<and> 0 + unat (buffer_of [5, 1, 2] 0) > unat (3 :: u16)
   \<and> buffer_of [5, 1, 2] 0 \<noteq> 1"
    by (simp add: decode_final_def decode_init_def decode_loop.simps decode_iter_def
        Let_def buffer_of_def)
  moreover have six: "decode (buffer_of [3, 1, 2, 2, 3, 2, 4]) 7 (\<lambda>k. 9) = 6"
    by (simp add: decode_def decode_final_def decode_init_def decode_loop.simps decode_iter_def
      copy_loop.simps poke_def Let_def buffer_of_def)
  moreover have "\<not> rejected (decode_final (buffer_of [3, 1, 2, 2, 3, 2, 4]) 7 (\<lambda>k. 9))"
  proof
    assume "rejected (decode_final (buffer_of [3, 1, 2, 2, 3, 2, 4]) 7 (\<lambda>k. 9))"
    then have "decode (buffer_of [3, 1, 2, 2, 3, 2, 4]) 7 (\<lambda>k. 9) = 0"
      using decode_failure_exit [of "buffer_of [3, 1, 2, 2, 3, 2, 4]" 7 "\<lambda>k. 9"] by blast
    with six show False
      by simp
  qed
  ultimately show ?thesis
    using decode_failure_exit [of "buffer_of [5, 1, 2]" 3 "\<lambda>k. 0"]
    by blast
qed

text \<open>
  The claim C4 as it is stated, without the empty message, fails in the direction from
  the value to the cause: \<open>decode([1], 1)\<close> returns 0, and the only code byte it loads
  is 1.
\<close>

theorem decode_zero_without_failure:
  "decode (buffer_of [1]) 1 (\<lambda>k. 0) = 0
   \<and> \<not> (\<exists>r\<in>set (code_reads (decode_final (buffer_of [1]) 1 (\<lambda>k. 0))).
           r + unat (buffer_of [1] r) > unat (1 :: u16) \<and> buffer_of [1] r \<noteq> 1)"
  by (simp add: decode_def decode_final_def decode_init_def decode_loop.simps decode_iter_def
      copy_loop.simps poke_def Let_def buffer_of_def)

section \<open>Termination of decode\<close>

lemma decode_loop_stops:
  "rejected (decode_loop source size' s) \<or> \<not> read_index (decode_loop source size' s) < size'"
proof (induction source size' s rule: decode_loop.induct)
  case (1 source size' s)
  then show ?case
    by (subst (1 2) decode_loop.simps) auto
qed

lemma decode_loop_iterations:
  "unat (read_index s) \<le> unat size' \<Longrightarrow>
   \<exists>k\<le>unat size' - unat (read_index s).
      decode_loop source size' s = (decode_iter source size' ^^ k) s
      \<and> (\<forall>j<k. \<not> rejected ((decode_iter source size' ^^ j) s)
                \<and> read_index ((decode_iter source size' ^^ j) s) < size')"
proof (induction source size' s rule: decode_loop.induct)
  case (1 source size' s)
  let ?s' = "decode_iter source size' s"
  show ?case
  proof (cases "\<not> rejected s \<and> read_index s < size'")
    case False
    then have "decode_loop source size' s = s"
      by (subst decode_loop.simps) auto
    then show ?thesis
      by (intro exI [of _ 0]) simp
  next
    case run: True
    then have unfold: "decode_loop source size' s = decode_loop source size' ?s'"
      by (subst decode_loop.simps) simp
    from run have rlt: "unat (read_index s) < unat size'"
      by (simp add: word_less_nat_alt)
    show ?thesis
    proof (cases "rejected ?s'")
      case True
      then have "decode_loop source size' ?s' = ?s'"
        by (subst decode_loop.simps) simp
      with unfold run rlt show ?thesis
        by (intro exI [of _ 1]) simp
    next
      case False
      with run have adv: "unat (read_index s) < unat (read_index ?s')"
        "unat (read_index ?s') \<le> unat size'"
        using decode_iter_read_index [of s size' source] by simp_all
      from "1.IH" [OF run adv(2)] obtain k
        where k: "k \<le> unat size' - unat (read_index ?s')"
          "decode_loop source size' ?s' = (decode_iter source size' ^^ k) ?s'"
          "\<forall>j<k. \<not> rejected ((decode_iter source size' ^^ j) ?s')
                \<and> read_index ((decode_iter source size' ^^ j) ?s') < size'"
        by blast
      have "\<forall>j<Suc k. \<not> rejected ((decode_iter source size' ^^ j) s)
                \<and> read_index ((decode_iter source size' ^^ j) s) < size'"
      proof (intro allI impI)
        fix j
        assume "j < Suc k"
        then show "\<not> rejected ((decode_iter source size' ^^ j) s)
                \<and> read_index ((decode_iter source size' ^^ j) s) < size'"
          using run k(3) by (cases j) (simp_all add: funpow_swap1)
      qed
      moreover have "decode_loop source size' s = (decode_iter source size' ^^ Suc k) s"
        using unfold k(2) by (simp add: funpow_swap1)
      moreover have "Suc k \<le> unat size' - unat (read_index s)"
        using k(1) adv by simp
      ultimately show ?thesis
        by blast
    qed
  qed
qed

text \<open>
  Claim C10. For every source buffer and size, \<open>decode\<close> reaches its end after \<open>k\<close>
  iterations of the loop body, for some \<open>k \<le> size\<close>: each of the \<open>k\<close> iterations starts
  in a state where the loop condition holds and either takes the \<^verbatim>\<open>return 0\<close> or leaves
  \<^verbatim>\<open>read_index\<close> strictly greater, and after them the loop has been left. (That the
  recursion of \<open>decode_loop\<close> is well-founded on every input is its termination proof.)
\<close>

theorem decode_terminates:
  "\<exists>k\<le>unat size'.
      decode_final source size' dest = (decode_iter source size' ^^ k) (decode_init dest)
      \<and> (\<forall>j<k. \<not> rejected ((decode_iter source size' ^^ j) (decode_init dest))
                \<and> read_index ((decode_iter source size' ^^ j) (decode_init dest)) < size'
                \<and> (rejected ((decode_iter source size' ^^ Suc j) (decode_init dest))
                     \<or> read_index ((decode_iter source size' ^^ j) (decode_init dest))
                          < read_index ((decode_iter source size' ^^ Suc j) (decode_init dest))))
      \<and> (rejected (decode_final source size' dest)
            \<or> \<not> read_index (decode_final source size' dest) < size')"
proof -
  have "unat (read_index (decode_init dest)) \<le> unat size'"
    by (simp add: decode_init_def)
  from decode_loop_iterations [OF this, of source] obtain k
    where k: "k \<le> unat size'"
      "decode_final source size' dest = (decode_iter source size' ^^ k) (decode_init dest)"
      "\<forall>j<k. \<not> rejected ((decode_iter source size' ^^ j) (decode_init dest))
                \<and> read_index ((decode_iter source size' ^^ j) (decode_init dest)) < size'"
    by (auto simp: decode_final_def decode_init_def)
  have "\<forall>j<k. rejected ((decode_iter source size' ^^ Suc j) (decode_init dest))
                     \<or> read_index ((decode_iter source size' ^^ j) (decode_init dest))
                          < read_index ((decode_iter source size' ^^ Suc j) (decode_init dest))"
  proof (intro allI impI)
    fix j
    assume "j < k"
    with k(3) have lt: "read_index ((decode_iter source size' ^^ j) (decode_init dest)) < size'"
      by blast
    show "rejected ((decode_iter source size' ^^ Suc j) (decode_init dest))
                     \<or> read_index ((decode_iter source size' ^^ j) (decode_init dest))
                          < read_index ((decode_iter source size' ^^ Suc j) (decode_init dest))"
    proof (cases "rejected ((decode_iter source size' ^^ Suc j) (decode_init dest))")
      case True
      then show ?thesis by simp
    next
      case False
      then have "\<not> rejected (decode_iter source size'
                    ((decode_iter source size' ^^ j) (decode_init dest)))"
        by simp
      from decode_iter_read_index(1) [OF lt this]
      have "unat (read_index ((decode_iter source size' ^^ j) (decode_init dest)))
              < unat (read_index (decode_iter source size'
                    ((decode_iter source size' ^^ j) (decode_init dest))))"
        by simp
      then show ?thesis
        by (simp add: word_less_nat_alt)
    qed
  qed
  with k decode_loop_stops [of source size' "decode_init dest"] show ?thesis
    unfolding decode_final_def by blast
qed

theorem decode_terminates_witness:
  "(\<exists>k\<le>unat (7 :: u16). decode_final (buffer_of [3, 1, 2, 2, 3, 2, 4]) 7 (\<lambda>k. 9)
     = (decode_iter (buffer_of [3, 1, 2, 2, 3, 2, 4]) 7 ^^ k) (decode_init (\<lambda>k. 9)))
   \<and> decode_final (buffer_of [3, 1, 2, 2, 3, 2, 4]) 7 (\<lambda>k. 9)
     = (decode_iter (buffer_of [3, 1, 2, 2, 3, 2, 4]) 7 ^^ 3) (decode_init (\<lambda>k. 9))
   \<and> read_index (decode_init (\<lambda>k. 9)) < (7 :: u16)
   \<and> read_index (decode_final (buffer_of [3, 1, 2, 2, 3, 2, 4]) 7 (\<lambda>k. 9)) = 7"
proof -
  have three: "\<And>f (x :: dec_state). (f ^^ 3) x = f (f (f x))"
    by (simp add: numeral_3_eq_3)
  have "decode_final (buffer_of [3, 1, 2, 2, 3, 2, 4]) 7 (\<lambda>k. 9)
     = (decode_iter (buffer_of [3, 1, 2, 2, 3, 2, 4]) 7 ^^ 3) (decode_init (\<lambda>k. 9))
   \<and> read_index (decode_init (\<lambda>k. 9)) < (7 :: u16)
   \<and> read_index (decode_final (buffer_of [3, 1, 2, 2, 3, 2, 4]) 7 (\<lambda>k. 9)) = 7"
    by (simp add: decode_final_def decode_init_def decode_loop.simps decode_iter_def
      copy_loop.simps poke_def Let_def buffer_of_def three)
  with decode_terminates [of 7 "buffer_of [3, 1, 2, 2, 3, 2, 4]" "\<lambda>k. 9"]
  show ?thesis by blast
qed

section \<open>The three segments as one stream\<close>

text \<open>
  The body of the three loops of \<open>encode\<close> as a function of the byte it reads, without
  the increment of \<^verbatim>\<open>read_index\<close>; each loop is the fold of it over the bytes of its
  segment, and \<open>encode\<close> the fold over the bytes of the header, the body and the trailer
  in this order, followed by the last store of the code byte.
\<close>

definition feed :: "u8 \<Rightarrow> enc_state \<Rightarrow> enc_state" where
  "feed x s =
     (if x = 0 then close_run s
      else (let s' = (poke (write_index s) x s)
                       \<lparr>write_index := write_index s + 1, code := code s + 1\<rparr>
            in if code s' = 0xFF then close_run s' else s'))"

lemma feed_read_index: "feed x (s\<lparr>read_index := r\<rparr>) = (feed x s)\<lparr>read_index := r\<rparr>"
  by (simp add: feed_def close_run_def poke_def Let_def)

lemma body_feed:
  "(if source (unat (read_index s)) = 0
    then (close_run s)\<lparr>read_index := read_index s + 1\<rparr>
    else copy_byte source s)
   = (feed (source (unat (read_index s))) s)\<lparr>read_index := read_index s + 1\<rparr>"
  by (simp add: feed_def copy_byte_def close_run_def poke_def Let_def)

lemma feed_zero: "feed 0 s = close_run s"
  by (simp add: feed_def)

lemma copy_byte_feed:
  "source (unat (read_index s)) \<noteq> 0 \<Longrightarrow>
   copy_byte source s = (feed (source (unat (read_index s))) s)\<lparr>read_index := read_index s + 1\<rparr>"
  by (simp add: feed_def copy_byte_def close_run_def poke_def Let_def)

lemma encode_segment_fold:
  "(encode_segment source size' s)\<lparr>read_index := 0\<rparr>
     = foldl (\<lambda>s x. feed x s) (s\<lparr>read_index := 0\<rparr>)
         (map source [unat (read_index s) ..< unat size'])"
proof (induction source size' s rule: encode_segment.induct)
  case (1 source size' s)
  show ?case
  proof (cases "read_index s < size'")
    case False
    then show ?thesis
      by (subst encode_segment.simps) (simp add: word_less_nat_alt)
  next
    case True
    let ?x = "source (unat (read_index s))"
    let ?s' = "(feed ?x s)\<lparr>read_index := read_index s + 1\<rparr>"
    have inc: "unat (read_index s + 1) = Suc (unat (read_index s))"
      using True by (rule unat_inc_less)
    have lt: "unat (read_index s) < unat size'"
      using True by (simp add: word_less_nat_alt)
    have step: "encode_segment source size' s = encode_segment source size' ?s'"
      using True by (subst encode_segment.simps) (simp add: body_feed [symmetric])
    have "(encode_segment source size' ?s')\<lparr>read_index := 0\<rparr>
        = foldl (\<lambda>s x. feed x s) (?s'\<lparr>read_index := 0\<rparr>)
         (map source [unat (read_index ?s') ..< unat size'])"
    proof (cases "?x = 0")
      case True
      with "1.IH"(1) [OF \<open>read_index s < size'\<close> True] show ?thesis
        by (simp add: feed_zero)
    next
      case False
      with "1.IH"(2) [OF \<open>read_index s < size'\<close> False] show ?thesis
        by (simp add: copy_byte_feed)
    qed
    then show ?thesis
      using lt by (simp add: step inc upt_conv_Cons feed_read_index)
  qed
qed


definition encode_bytes :: "u8 list \<Rightarrow> buffer \<Rightarrow> enc_state" where
  "encode_bytes xs dest =
     (let s = foldl (\<lambda>s x. feed x s) (enc_init dest) xs
      in poke (code_index s) (code s) s)"

lemma encode_final_bytes:
  "(encode_final h hs b bs t ts dest)\<lparr>read_index := 0\<rparr>
     = encode_bytes (bytes h (unat hs) @ bytes b (unat bs) @ bytes t (unat ts)) dest"
proof -
  let ?F = "\<lambda>s x. feed x s"
  let ?s0 = "enc_init dest"
  let ?s1 = "encode_segment h hs ?s0"
  let ?s2 = "encode_segment b bs (?s1\<lparr>read_index := 0\<rparr>)"
  let ?s3 = "encode_segment t ts (?s2\<lparr>read_index := 0\<rparr>)"
  have s0: "?s0\<lparr>read_index := 0\<rparr> = ?s0" "read_index ?s0 = 0"
    by (simp_all add: enc_init_def)
  have 1: "?s1\<lparr>read_index := 0\<rparr> = foldl ?F ?s0 (bytes h (unat hs))"
    using encode_segment_fold [of h hs ?s0] by (simp add: s0 bytes_def)
  have 2: "?s2\<lparr>read_index := 0\<rparr> = foldl ?F (?s1\<lparr>read_index := 0\<rparr>) (bytes b (unat bs))"
    using encode_segment_fold [of b bs "?s1\<lparr>read_index := 0\<rparr>"] by (simp add: bytes_def)
  have 3: "?s3\<lparr>read_index := 0\<rparr> = foldl ?F (?s2\<lparr>read_index := 0\<rparr>) (bytes t (unat ts))"
    using encode_segment_fold [of t ts "?s2\<lparr>read_index := 0\<rparr>"] by (simp add: bytes_def)
  have "?s3\<lparr>read_index := 0\<rparr>
          = foldl ?F (foldl ?F (?s1\<lparr>read_index := 0\<rparr>) (bytes b (unat bs))) (bytes t (unat ts))"
    using 2 3 by simp
  also have "\<dots> = foldl ?F (foldl ?F (foldl ?F ?s0 (bytes h (unat hs))) (bytes b (unat bs)))
                      (bytes t (unat ts))"
    using 1 by simp
  finally have "?s3\<lparr>read_index := 0\<rparr>
          = foldl ?F ?s0 (bytes h (unat hs) @ bytes b (unat bs) @ bytes t (unat ts))"
    by simp
  moreover have "(encode_final h hs b bs t ts dest)\<lparr>read_index := 0\<rparr>
     = poke (code_index (?s3\<lparr>read_index := 0\<rparr>)) (code (?s3\<lparr>read_index := 0\<rparr>))
         (?s3\<lparr>read_index := 0\<rparr>)"
    by (simp add: encode_final_def Let_def poke_def enc_init_def)
  ultimately show ?thesis
    by (simp only: encode_bytes_def Let_def)
qed

lemma encode_final_fields:
  "write_index (encode_final h hs b bs t ts dest)
     = write_index (encode_bytes (bytes h (unat hs) @ bytes b (unat bs) @ bytes t (unat ts)) dest)"
  "destination (encode_final h hs b bs t ts dest)
     = destination (encode_bytes (bytes h (unat hs) @ bytes b (unat bs) @ bytes t (unat ts)) dest)"
  "writes (encode_final h hs b bs t ts dest)
     = writes (encode_bytes (bytes h (unat hs) @ bytes b (unat bs) @ bytes t (unat ts)) dest)"
  "code_index (encode_final h hs b bs t ts dest)
     = code_index (encode_bytes (bytes h (unat hs) @ bytes b (unat bs) @ bytes t (unat ts)) dest)"
  "code (encode_final h hs b bs t ts dest)
     = code (encode_bytes (bytes h (unat hs) @ bytes b (unat bs) @ bytes t (unat ts)) dest)"
  unfolding encode_final_bytes [symmetric] by simp_all

lemma bytes_buffer_of: "bytes (buffer_of xs) (length xs) = xs"
proof -
  have "map (buffer_of xs) [0..<length xs] = map ((!) xs) [0..<length xs]"
    by (rule map_cong) (simp_all add: buffer_of_def)
  then show ?thesis
    by (simp add: bytes_def map_nth)
qed

lemma bytes_zero: "bytes m 0 = []"
  by (simp add: bytes_def)

lemma unat_of_nat_length: "n < 65536 \<Longrightarrow> unat (of_nat n :: u16) = n"
  by (simp add: unat_of_nat)

text \<open>
  Claim C5. For every header \<open>h\<close>, body \<open>b\<close> and trailer \<open>t\<close> (whose total length
  fits the \<^verbatim>\<open>uint16_t\<close> size of the single buffer), \<open>encode\<close> of the three segments
  returns the same length as \<open>encode\<close> of the one buffer \<open>h @ b @ t\<close> passed as the body
  with empty header and trailer, leaves the same destination and stores to the same
  offsets in the same order.
\<close>

theorem segment_concatenation:
  assumes "length h + length b + length t < 65536"
  shows "encode (buffer_of h) (of_nat (length h)) (buffer_of b) (of_nat (length b))
              (buffer_of t) (of_nat (length t)) dest
           = encode (buffer_of []) 0 (buffer_of (h @ b @ t)) (of_nat (length (h @ b @ t)))
               (buffer_of []) 0 dest
         \<and> destination (encode_final (buffer_of h) (of_nat (length h)) (buffer_of b)
               (of_nat (length b)) (buffer_of t) (of_nat (length t)) dest)
           = destination (encode_final (buffer_of []) 0 (buffer_of (h @ b @ t))
               (of_nat (length (h @ b @ t))) (buffer_of []) 0 dest)
         \<and> writes (encode_final (buffer_of h) (of_nat (length h)) (buffer_of b)
               (of_nat (length b)) (buffer_of t) (of_nat (length t)) dest)
           = writes (encode_final (buffer_of []) 0 (buffer_of (h @ b @ t))
               (of_nat (length (h @ b @ t))) (buffer_of []) 0 dest)"
proof -
  have "length h < 65536" "length b < 65536" "length t < 65536" "length (h @ b @ t) < 65536"
    using assms by simp_all
  then have "unat (of_nat (length h) :: u16) = length h"
    "unat (of_nat (length b) :: u16) = length b"
    "unat (of_nat (length t) :: u16) = length t"
    "unat (of_nat (length (h @ b @ t)) :: u16) = length (h @ b @ t)"
    by (simp_all only: unat_of_nat_length)
  then show ?thesis
    by (simp only: encode_def encode_final_fields bytes_buffer_of bytes_zero unsigned_0
        append_Nil append_Nil2)
qed

theorem segment_concatenation_witness:
  "length [1, 2 :: u8] + length [0, 3 :: u8] + length [4 :: u8] < 65536
   \<and> encode (buffer_of [1, 2]) 2 (buffer_of [0, 3]) 2 (buffer_of [4]) 1 (\<lambda>k. 0) = 6
   \<and> encode (buffer_of []) 0 (buffer_of [1, 2, 0, 3, 4]) 5 (buffer_of []) 0 (\<lambda>k. 0) = 6
   \<and> bytes (destination (encode_final (buffer_of []) 0 (buffer_of [1, 2, 0, 3, 4]) 5
               (buffer_of []) 0 (\<lambda>k. 0))) 6 = [3, 1, 2, 3, 3, 4]
   \<and> bytes (destination (encode_final (buffer_of [1, 2]) 2 (buffer_of [0, 3]) 2
               (buffer_of [4]) 1 (\<lambda>k. 0))) 6 = [3, 1, 2, 3, 3, 4]"
proof -
  have ev: "encode (buffer_of []) 0 (buffer_of [1, 2, 0, 3, 4]) 5 (buffer_of []) 0 (\<lambda>k. 0) = 6
   \<and> bytes (destination (encode_final (buffer_of []) 0 (buffer_of [1, 2, 0, 3, 4]) 5
               (buffer_of []) 0 (\<lambda>k. 0))) 6 = [3, 1, 2, 3, 3, 4]"
    by (simp add: encode_def encode_final_def enc_init_def encode_segment.simps copy_byte_def close_run_def
        poke_def Let_def buffer_of_def bytes_def upt_rec)
  with segment_concatenation [of "[1, 2]" "[0, 3]" "[4]" "\<lambda>k. 0"]
  show ?thesis by simp
qed

section \<open>No zero byte in the output of encode\<close>

lemma unat_inc_le: "unat ((w::u16) + 1) \<le> Suc (unat w)"
  by (simp add: unat_word_ariths)

lemma u8_inc_nonzero: "(c::u8) \<noteq> 0xFF \<Longrightarrow> c + 1 \<noteq> 0"
proof
  assume ne: "c \<noteq> 0xFF" and "c + 1 = 0"
  then have "c = - 1"
    by (simp add: eq_neg_iff_add_eq_0)
  with ne show False
    by simp
qed

text \<open>
  The invariant of the loops of \<open>encode\<close>, which holds whether or not \<^verbatim>\<open>write_index\<close>
  wraps around: the code byte is between 1 and 254; every offset stored to so far, but
  the reserved one at \<^verbatim>\<open>code_index\<close>, holds a non-zero byte; and every offset below
  \<^verbatim>\<open>write_index\<close> has been stored to or is the reserved one.
\<close>

definition nonzero_inv :: "enc_state \<Rightarrow> bool" where
  "nonzero_inv s \<longleftrightarrow>
     code s \<noteq> 0 \<and> code s \<noteq> 0xFF
     \<and> (\<forall>i\<in>set (writes s). i \<noteq> unat (code_index s) \<longrightarrow> destination s i \<noteq> 0)
     \<and> (\<forall>i<unat (write_index s). i \<in> set (writes s) \<or> i = unat (code_index s))"

lemma nonzero_inv_close_run:
  assumes "code s \<noteq> 0"
    and "\<forall>i\<in>set (writes s). i \<noteq> unat (code_index s) \<longrightarrow> destination s i \<noteq> 0"
    and "\<forall>i<unat (write_index s). i \<in> set (writes s) \<or> i = unat (code_index s)"
  shows "nonzero_inv (close_run s)"
proof -
  have "\<forall>i<unat (write_index s + 1). i \<in> set (writes s) \<or> i = unat (code_index s)
           \<or> i = unat (write_index s)"
    using assms(3) unat_inc_le [of "write_index s"]
    by (metis less_Suc_eq less_le_trans not_less)
  then show ?thesis
    using assms by (auto simp: nonzero_inv_def close_run_def poke_def)
qed

lemma nonzero_inv_feed: "nonzero_inv s \<Longrightarrow> nonzero_inv (feed x s)"
proof (cases "x = 0")
  case True
  assume "nonzero_inv s"
  then have "code s \<noteq> 0"
    and "\<forall>i\<in>set (writes s). i \<noteq> unat (code_index s) \<longrightarrow> destination s i \<noteq> 0"
    and "\<forall>i<unat (write_index s). i \<in> set (writes s) \<or> i = unat (code_index s)"
    by (simp_all add: nonzero_inv_def)
  then have "nonzero_inv (close_run s)"
    by (rule nonzero_inv_close_run)
  then show ?thesis
    using True by (simp add: feed_def)
next
  case False
  assume inv: "nonzero_inv s"
  let ?s' = "(poke (write_index s) x s)\<lparr>write_index := write_index s + 1, code := code s + 1\<rparr>"
  have c: "code ?s' \<noteq> 0"
    using inv by (simp add: nonzero_inv_def poke_def u8_inc_nonzero)
  have a: "\<forall>i\<in>set (writes ?s'). i \<noteq> unat (code_index ?s') \<longrightarrow> destination ?s' i \<noteq> 0"
    using inv False by (auto simp: nonzero_inv_def poke_def)
  have "\<forall>i<unat (write_index s + 1). i < unat (write_index s) \<or> i = unat (write_index s)"
    using unat_inc_le [of "write_index s"] by (metis less_Suc_eq less_le_trans not_less)
  then have b: "\<forall>i<unat (write_index ?s'). i \<in> set (writes ?s') \<or> i = unat (code_index ?s')"
    using inv by (auto simp: nonzero_inv_def poke_def)
  show ?thesis
  proof (cases "code ?s' = 0xFF")
    case True
    then show ?thesis
      using False nonzero_inv_close_run [OF c a b] by (simp add: feed_def Let_def)
  next
    case False
    then have "nonzero_inv ?s'"
      using a b c unfolding nonzero_inv_def by blast
    then show ?thesis
      using False \<open>x \<noteq> 0\<close> by (simp add: feed_def Let_def)
  qed
qed

lemma nonzero_inv_fold: "nonzero_inv s \<Longrightarrow> nonzero_inv (foldl (\<lambda>s x. feed x s) s xs)"
  by (induction xs arbitrary: s) (simp_all add: nonzero_inv_feed)

lemma encode_bytes_nonzero:
  "i < unat (write_index (encode_bytes xs dest)) \<Longrightarrow> destination (encode_bytes xs dest) i \<noteq> 0"
proof -
  let ?s = "foldl (\<lambda>s x. feed x s) (enc_init dest) xs"
  assume i: "i < unat (write_index (encode_bytes xs dest))"
  have "nonzero_inv (enc_init dest)"
    by (simp add: nonzero_inv_def enc_init_def)
  then have inv: "nonzero_inv ?s"
    by (rule nonzero_inv_fold)
  from i have "i < unat (write_index ?s)"
    by (simp add: encode_bytes_def Let_def poke_def)
  with inv show ?thesis
    by (auto simp: encode_bytes_def Let_def poke_def nonzero_inv_def)
qed

text \<open>
  Claim C2. For every input (header, body and trailer of any sizes), every one of the
  first \<open>encodedLen\<close> bytes of the destination after \<open>encode\<close> has returned
  \<open>encodedLen\<close> is non-zero.
\<close>

theorem encode_no_zero_bytes:
  "\<forall>i<unat (encode sourceHeader sourceHeaderSize sourceBody sourceBodySize
                 sourceTrailer sourceTrailerSize dest).
     destination (encode_final sourceHeader sourceHeaderSize sourceBody sourceBodySize
                 sourceTrailer sourceTrailerSize dest) i \<noteq> 0"
  by (simp add: encode_def encode_final_fields encode_bytes_nonzero)

theorem encode_no_zero_bytes_witness:
  "unat (encode (buffer_of [1, 2]) 2 (buffer_of [0, 3]) 2 (buffer_of [4]) 1 (\<lambda>k. 0)) = 6
   \<and> (3 :: nat) < 6
   \<and> destination (encode_final (buffer_of [1, 2]) 2 (buffer_of [0, 3]) 2 (buffer_of [4]) 1
         (\<lambda>k. 0)) 3 \<noteq> 0"
proof -
  have ret: "unat (encode (buffer_of [1, 2]) 2 (buffer_of [0, 3]) 2 (buffer_of [4]) 1
              (\<lambda>k. 0)) = 6"
    by (simp add: encode_def encode_final_def enc_init_def encode_segment.simps copy_byte_def close_run_def
        poke_def Let_def buffer_of_def)
  then have "3 < unat (encode (buffer_of [1, 2]) 2 (buffer_of [0, 3]) 2 (buffer_of [4]) 1
              (\<lambda>k. 0))"
    by simp
  with encode_no_zero_bytes [of "buffer_of [1, 2]" 2 "buffer_of [0, 3]" 2 "buffer_of [4]" 1
      "\<lambda>k. 0"]
  have "destination (encode_final (buffer_of [1, 2]) 2 (buffer_of [0, 3]) 2 (buffer_of [4]) 1
         (\<lambda>k. 0)) 3 \<noteq> 0"
    by blast
  with ret show ?thesis
    by simp
qed

section \<open>The encoded bytes\<close>

text \<open>
  The encoding as a function on lists, for the proofs: \<open>stuff cur xs\<close> is what the
  encoder still has to produce when \<open>cur\<close> is the run it has open and \<open>xs\<close> the bytes it
  has not read; \<open>stuff [] xs\<close> is the encoding of \<open>xs\<close>.
\<close>

fun stuff :: "u8 list \<Rightarrow> u8 list \<Rightarrow> u8 list" where
  "stuff cur [] = of_nat (length cur + 1) # cur"
| "stuff cur (x # xs) =
     (if x = 0 then of_nat (length cur + 1) # cur @ stuff [] xs
      else if length cur = 253 then 0xFF # cur @ x # stuff [] xs
      else stuff (cur @ [x]) xs)"

lemma length_stuff_lower: "length cur + length xs + 1 \<le> length (stuff cur xs)"
proof (induction xs arbitrary: cur)
  case Nil
  show ?case by simp
next
  case (Cons x xs)
  from Cons [of "[]"] Cons [of "cur @ [x]"] show ?case
    by simp
qed

lemma length_stuff_upper:
  "length cur \<le> 253 \<Longrightarrow>
   \<exists>e. length (stuff cur xs) = length cur + length xs + 1 + e
       \<and> 254 * e \<le> length cur + length xs"
proof (induction xs arbitrary: cur)
  case Nil
  then show ?case by simp
next
  case (Cons x xs)
  from Cons.IH [of "[]"] obtain e0
    where e0: "length (stuff [] xs) = length xs + 1 + e0" "254 * e0 \<le> length xs"
    by auto
  show ?case
  proof (cases "x = 0")
    case True
    with e0 show ?thesis
      by (intro exI [of _ e0]) simp
  next
    case nz: False
    show ?thesis
    proof (cases "length cur = 253")
      case True
      with nz e0 show ?thesis
        by (intro exI [of _ "Suc e0"]) simp
    next
      case False
      with Cons.prems have "length (cur @ [x]) \<le> 253"
        by simp
      from Cons.IH [OF this] nz False show ?thesis
        by simp
    qed
  qed
qed

lemma length_stuff_nonzero:
  "length cur \<le> 253 \<Longrightarrow> 0 \<notin> set xs \<Longrightarrow>
   length (stuff cur xs) = length cur + length xs + 1 + (length cur + length xs) div 254"
proof (induction xs arbitrary: cur)
  case Nil
  then show ?case by simp
next
  case (Cons x xs)
  then have nz: "x \<noteq> 0" "0 \<notin> set xs"
    by auto
  show ?case
  proof (cases "length cur = 253")
    case True
    with nz Cons.IH [of "[]"] show ?thesis
      by simp
  next
    case False
    with Cons.prems have "length (cur @ [x]) \<le> 253"
      by simp
    from Cons.IH [OF this nz(2)] nz False show ?thesis
      by simp
  qed
qed

lemma length_stuff_bound:
  "length (stuff [] xs) \<le> length xs + length xs div 254 + 1"
proof -
  from length_stuff_upper [of "[]" xs] obtain e
    where "length (stuff [] xs) = length xs + 1 + e" "254 * e \<le> length xs"
    by auto
  then show ?thesis
    by simp
qed


text \<open>
  The state of \<open>encode\<close> after it has closed the groups \<open>out\<close> and copied the open run
  \<open>cur\<close>: \<open>out\<close> lies at the start of the destination, the slot of the code byte after
  it is reserved, and \<open>cur\<close> follows.
\<close>

definition layout :: "u8 list \<Rightarrow> u8 list \<Rightarrow> enc_state \<Rightarrow> bool" where
  "layout out cur s \<longleftrightarrow>
     unat (code_index s) = length out
     \<and> unat (write_index s) = length out + 1 + length cur
     \<and> unat (code s) = length cur + 1
     \<and> (\<forall>j<length out. destination s j = out ! j)
     \<and> (\<forall>j<length cur. destination s (length out + 1 + j) = cur ! j)
     \<and> (\<forall>k\<in>set (writes s). k < length out + 1 + length cur)"

lemma layout_code: "layout out cur s \<Longrightarrow> code s = of_nat (length cur + 1)"
proof -
  assume "layout out cur s"
  then have "unat (code s) = length cur + 1"
    by (simp add: layout_def)
  moreover have "of_nat (unat (code s)) = code s"
    by simp
  ultimately show ?thesis
    by simp
qed

lemma layout_destination:
  assumes l: "layout out cur s"
  shows "\<forall>j<length out + 1 + length cur.
          ((destination s)(length out := code s)) j = (out @ code s # cur) ! j"
proof (intro allI impI)
  fix j
  assume j: "j < length out + 1 + length cur"
  show "((destination s)(length out := code s)) j = (out @ code s # cur) ! j"
  proof (cases "j \<le> length out")
    case True
    with l show ?thesis
      by (cases "j = length out") (simp_all add: layout_def nth_append)
  next
    case False
    define i where "i = j - (length out + 1)"
    with False j have "j = length out + 1 + i" "i < length cur"
      by simp_all
    with l show ?thesis
      by (simp add: layout_def nth_append)
  qed
qed

lemma layout_close:
  assumes l: "layout out cur s" and room: "length out + length cur + 2 < 65536"
  shows "layout (out @ of_nat (length cur + 1) # cur) [] (close_run s)"
proof -
  have c: "code s = of_nat (length cur + 1)"
    using l by (rule layout_code)
  have w: "unat (write_index s + 1) = length out + length cur + 2"
    using l room by (simp add: layout_def unat_word_ariths)
  show ?thesis
    using l w layout_destination [OF l] unfolding c [symmetric]
    by (auto simp: layout_def close_run_def poke_def)
qed

lemma layout_store:
  assumes l: "layout out cur s" and len: "length cur \<le> 253"
    and room: "length out + length cur + 2 < 65536"
  shows "layout out (cur @ [x])
           ((poke (write_index s) x s)\<lparr>write_index := write_index s + 1, code := code s + 1\<rparr>)"
proof -
  have w: "unat (write_index s + 1) = length out + length cur + 2"
    using l room by (simp add: layout_def unat_word_ariths)
  have c: "unat (code s + 1) = length cur + 2"
    using l len by (simp add: layout_def unat_word_ariths)
  show ?thesis
    using l w c by (auto simp: layout_def poke_def nth_append less_Suc_eq)
qed


lemma layout_feed_zero:
  "layout out cur s \<Longrightarrow> length out + length cur + 2 < 65536 \<Longrightarrow>
   layout (out @ of_nat (length cur + 1) # cur) [] (feed 0 s)"
  unfolding feed_zero by (rule layout_close)

lemma layout_feed_flush:
  assumes l: "layout out cur s" and len: "length cur = 253" and nz: "x \<noteq> 0"
    and room: "length out + length cur + 3 < 65536"
  shows "layout (out @ 0xFF # cur @ [x]) [] (feed x s)"
proof -
  let ?s1 = "(poke (write_index s) x s)\<lparr>write_index := write_index s + 1, code := code s + 1\<rparr>"
  have l1: "layout out (cur @ [x]) ?s1"
    using l len room by (intro layout_store) simp_all
  then have "code ?s1 = of_nat (length (cur @ [x]) + 1)"
    by (rule layout_code)
  then have c: "code ?s1 = 0xFF"
    using len by simp
  have "layout (out @ of_nat (length (cur @ [x]) + 1) # cur @ [x]) [] (close_run ?s1)"
    using l1 room by (intro layout_close) simp_all
  then show ?thesis
    using nz c len by (simp add: feed_def Let_def)
qed

lemma layout_feed_store:
  assumes l: "layout out cur s" and len: "length cur < 253" and nz: "x \<noteq> 0"
    and room: "length out + length cur + 2 < 65536"
  shows "layout out (cur @ [x]) (feed x s)"
proof -
  let ?s1 = "(poke (write_index s) x s)\<lparr>write_index := write_index s + 1, code := code s + 1\<rparr>"
  have l1: "layout out (cur @ [x]) ?s1"
    using l len room by (intro layout_store) simp_all
  then have "unat (code ?s1) = length cur + 2"
    by (simp add: layout_def)
  then have "unat (code ?s1) \<noteq> unat (0xFF :: u8)"
    using len by simp
  then have "code ?s1 \<noteq> 0xFF"
    by metis
  then show ?thesis
    using nz l1 by (simp add: feed_def Let_def)
qed

lemma layout_finish:
  assumes l: "layout out cur s"
  shows "unat (write_index (poke (code_index s) (code s) s)) = length out + 1 + length cur"
    and "\<forall>j<length out + 1 + length cur.
           destination (poke (code_index s) (code s) s) j
             = (out @ of_nat (length cur + 1) # cur) ! j"
    and "\<forall>k\<in>set (writes (poke (code_index s) (code s) s)). k < length out + 1 + length cur"
proof -
  show "unat (write_index (poke (code_index s) (code s) s)) = length out + 1 + length cur"
    using l by (simp add: layout_def poke_def)
  show "\<forall>k\<in>set (writes (poke (code_index s) (code s) s)). k < length out + 1 + length cur"
    using l by (auto simp: layout_def poke_def)
  have "code s = of_nat (length cur + 1)"
    using l by (rule layout_code)
  then show "\<forall>j<length out + 1 + length cur.
           destination (poke (code_index s) (code s) s) j
             = (out @ of_nat (length cur + 1) # cur) ! j"
    using layout_destination [OF l] l by (simp add: poke_def layout_def)
qed

lemma layout_fold:
  "layout out cur s \<Longrightarrow> length cur \<le> 253 \<Longrightarrow>
   length out + length (stuff cur xs) < 65536 \<Longrightarrow>
   (let f = foldl (\<lambda>s x. feed x s) s xs; e = poke (code_index f) (code f) f
    in unat (write_index e) = length out + length (stuff cur xs)
       \<and> (\<forall>j<length out + length (stuff cur xs). destination e j = (out @ stuff cur xs) ! j)
       \<and> (\<forall>k\<in>set (writes e). k < length out + length (stuff cur xs)))"
proof (induction xs arbitrary: out cur s)
  case Nil
  then show ?case
    using layout_finish [of out cur s] by (simp add: Let_def)
next
  case (Cons x xs)
  have low: "length cur + length xs + 2 \<le> length (stuff cur (x # xs))"
    using length_stuff_lower [of cur "x # xs"] by simp
  show ?case
  proof (cases "x = 0")
    case True
    have "layout (out @ of_nat (length cur + 1) # cur) [] (feed 0 s)"
      using Cons.prems low by (intro layout_feed_zero) simp_all
    from Cons.IH [OF this] Cons.prems(3) True show ?thesis
      by (simp add: Let_def add.assoc)
  next
    case nz: False
    show ?thesis
    proof (cases "length cur = 253")
      case True
      have "length (stuff [] xs) \<ge> 1"
        using length_stuff_lower [of "[]" xs] by simp
      then have "layout (out @ 0xFF # cur @ [x]) [] (feed x s)"
        using Cons.prems nz True by (intro layout_feed_flush) simp_all
      from Cons.IH [OF this] Cons.prems(3) True nz show ?thesis
        by (simp add: Let_def add.assoc)
    next
      case False
      then have lt: "length cur < 253"
        using Cons.prems(2) by simp
      have "layout out (cur @ [x]) (feed x s)"
        using Cons.prems nz lt low by (intro layout_feed_store) simp_all
      from Cons.IH [OF this] Cons.prems(3) lt nz show ?thesis
        by (simp add: Let_def add.assoc)
    qed
  qed
qed

lemma encode_bytes_stuff:
  assumes "length (stuff [] xs) < 65536"
  shows "unat (write_index (encode_bytes xs dest)) = length (stuff [] xs)"
    and "bytes (destination (encode_bytes xs dest)) (length (stuff [] xs)) = stuff [] xs"
    and "\<forall>k\<in>set (writes (encode_bytes xs dest)). k < length (stuff [] xs)"
proof -
  have "layout [] [] (enc_init dest)"
    by (simp add: layout_def enc_init_def)
  from layout_fold [OF this, of xs] assms
  have *: "unat (write_index (encode_bytes xs dest)) = length (stuff [] xs)
       \<and> (\<forall>j<length (stuff [] xs). destination (encode_bytes xs dest) j = stuff [] xs ! j)
       \<and> (\<forall>k\<in>set (writes (encode_bytes xs dest)). k < length (stuff [] xs))"
    by (simp add: encode_bytes_def Let_def)
  then show "unat (write_index (encode_bytes xs dest)) = length (stuff [] xs)"
    and "\<forall>k\<in>set (writes (encode_bytes xs dest)). k < length (stuff [] xs)"
    by simp_all
  from * show "bytes (destination (encode_bytes xs dest)) (length (stuff [] xs)) = stuff [] xs"
    unfolding bytes_def by (intro nth_equalityI) simp_all
qed

section \<open>The size of the encoded output\<close>

lemma set_bytes: "set (bytes m n) = m ` {0..<n}"
  by (simp add: bytes_def)

lemma length_bytes: "length (bytes m n) = n"
  by (simp add: bytes_def)

text \<open>
  Claim C3, amended. For every input whose sizes have a sum \<open>n\<close> with
  \<open>n + n div 254 + 1\<close> below \<open>2 ^ 16\<close> (so that neither \<open>getEncodedBufferSize\<close> nor
  \<^verbatim>\<open>write_index\<close> wraps around): the length \<open>encode\<close> returns is at most
  \<open>getEncodedBufferSize\<close> of the three sizes; every destination offset it stores to is
  below that bound; and when all the bytes of the input are non-zero and \<open>n\<close> is 0, 1, 253,
  254, 255 or 508, the length returned is \<open>getEncodedBufferSize\<close> exactly.
\<close>

theorem encode_size_bound:
  assumes total: "unat sourceHeaderSize + unat sourceBodySize + unat sourceTrailerSize = n"
    and fits: "n + n div 254 + 1 < 65536"
  shows "encode sourceHeader sourceHeaderSize sourceBody sourceBodySize
               sourceTrailer sourceTrailerSize dest
           \<le> getEncodedBufferSize sourceHeaderSize sourceBodySize sourceTrailerSize
         \<and> (\<forall>k\<in>set (writes (encode_final sourceHeader sourceHeaderSize sourceBody
                 sourceBodySize sourceTrailer sourceTrailerSize dest)).
               k < unat (getEncodedBufferSize sourceHeaderSize sourceBodySize
                           sourceTrailerSize))
         \<and> ((\<forall>i<unat sourceHeaderSize. sourceHeader i \<noteq> 0)
              \<and> (\<forall>i<unat sourceBodySize. sourceBody i \<noteq> 0)
              \<and> (\<forall>i<unat sourceTrailerSize. sourceTrailer i \<noteq> 0)
              \<and> n \<in> {0, 1, 253, 254, 255, 508} \<longrightarrow>
             encode sourceHeader sourceHeaderSize sourceBody sourceBodySize
                 sourceTrailer sourceTrailerSize dest
               = getEncodedBufferSize sourceHeaderSize sourceBodySize sourceTrailerSize)"
proof -
  let ?S = "bytes sourceHeader (unat sourceHeaderSize) @ bytes sourceBody (unat sourceBodySize)
              @ bytes sourceTrailer (unat sourceTrailerSize)"
  let ?e = "encode_final sourceHeader sourceHeaderSize sourceBody sourceBodySize
              sourceTrailer sourceTrailerSize dest"
  let ?g = "getEncodedBufferSize sourceHeaderSize sourceBodySize sourceTrailerSize"
  have len: "length ?S = n"
    using total by (simp add: length_bytes)
  have g: "unat ?g = n + n div 254 + 1"
    using getEncodedBufferSize_exact [of sourceHeaderSize sourceBodySize sourceTrailerSize]
      total fits by simp
  have up: "length (stuff [] ?S) \<le> n + n div 254 + 1"
    using length_stuff_bound [of ?S] len by simp
  then have small: "length (stuff [] ?S) < 65536"
    using fits by simp
  have ret: "unat (write_index ?e) = length (stuff [] ?S)"
    using encode_bytes_stuff(1) [OF small, of dest] by (simp add: encode_final_fields)
  have wr: "\<forall>k\<in>set (writes ?e). k < length (stuff [] ?S)"
    using encode_bytes_stuff(3) [OF small, of dest] by (simp add: encode_final_fields)
  have 1: "write_index ?e \<le> ?g"
    using ret up g by (simp add: word_le_nat_alt)
  have 2: "\<forall>k\<in>set (writes ?e). k < unat ?g"
    using wr up g by auto
  have 3: "write_index ?e = ?g"
    if "\<forall>i<unat sourceHeaderSize. sourceHeader i \<noteq> 0"
      "\<forall>i<unat sourceBodySize. sourceBody i \<noteq> 0"
      "\<forall>i<unat sourceTrailerSize. sourceTrailer i \<noteq> 0"
  proof -
    from that have "0 \<notin> set ?S"
      by (auto simp: set_bytes)
    then have "length (stuff [] ?S) = n + 1 + n div 254"
      using length_stuff_nonzero [of "[]" ?S] len by simp
    then have "unat (write_index ?e) = unat ?g"
      using ret g by simp
    then show ?thesis
      by (simp only: word_unat_eq_iff)
  qed
  from 1 2 3 show ?thesis
    unfolding encode_def by blast
qed


theorem encode_size_bound_witness:
  "unat (1 :: u16) + unat (0 :: u16) + unat (0 :: u16) = 1
   \<and> (1 :: nat) + 1 div 254 + 1 < 65536
   \<and> buffer_of [7] 0 \<noteq> 0
   \<and> encode (buffer_of [7]) 1 (buffer_of []) 0 (buffer_of []) 0 (\<lambda>k. 0) = 2
   \<and> getEncodedBufferSize 1 0 0 = 2
   \<and> writes (encode_final (buffer_of [7]) 1 (buffer_of []) 0 (buffer_of []) 0 (\<lambda>k. 0)) = [1, 0]"
proof -
  have "encode (buffer_of [7]) 1 (buffer_of []) 0 (buffer_of []) 0 (\<lambda>k. 0) = 2
   \<and> writes (encode_final (buffer_of [7]) 1 (buffer_of []) 0 (buffer_of []) 0 (\<lambda>k. 0)) = [1, 0]"
    by (simp add: encode_def encode_final_def enc_init_def encode_segment.simps copy_byte_def close_run_def
        poke_def Let_def buffer_of_def)
  moreover have "getEncodedBufferSize 1 0 0 = 2"
    by (simp add: getEncodedBufferSize_def)
  moreover have "buffer_of [7] 0 \<noteq> 0"
    by (simp add: buffer_of_def)
  ultimately show ?thesis
    using encode_size_bound [of 1 0 0 1 "buffer_of [7]" "buffer_of []" "buffer_of []" "\<lambda>k. 0"]
    by simp
qed

text \<open>An input of zero bytes: \<^verbatim>\<open>write_index\<close> moves by one for each, modulo \<open>2 ^ 16\<close>.\<close>

lemma fold_feed_zeros:
  "write_index (foldl (\<lambda>s x. feed x s) s (replicate n 0)) = write_index s + of_nat n"
proof (induction n arbitrary: s)
  case 0
  show ?case by simp
next
  case (Suc n)
  have "write_index (feed 0 s) = write_index s + 1"
    by (simp add: feed_zero close_run_def poke_def)
  with Suc [of "feed 0 s"] show ?case
    by (simp add: add.assoc add.commute)
qed

lemma bytes_zero_buffer: "bytes (\<lambda>k. 0) n = replicate n 0"
  by (simp add: bytes_def map_replicate_const)

lemma encode_zeros: "encode (\<lambda>k. 0) 0 (\<lambda>k. 0) bs (\<lambda>k. 0) 0 dest = 1 + bs"
proof -
  have "write_index (encode_bytes (replicate (unat bs) 0) dest) = 1 + of_nat (unat bs)"
    by (simp add: encode_bytes_def Let_def poke_def fold_feed_zeros enc_init_def)
  then show ?thesis
    by (simp add: encode_def encode_final_fields bytes_zero_buffer bytes_zero)
qed

text \<open>
  The claim C3 as it is stated, for every input, fails: for a body of 65278 zero bytes
  \<open>getEncodedBufferSize\<close> wraps around to 0, and \<open>encode\<close> returns 65279.
\<close>

theorem encode_exceeds_wrapped_size:
  "\<not> encode (\<lambda>k. 0) 0 (\<lambda>k. 0) 65278 (\<lambda>k. 0) 0 (\<lambda>k. 0) \<le> getEncodedBufferSize 0 65278 0"
proof -
  have "getEncodedBufferSize 0 65278 0 = 0"
    by (simp add: getEncodedBufferSize_def)
  then show ?thesis
    by (simp add: encode_zeros)
qed

section \<open>Decoding what encode has produced\<close>

text \<open>The loop of \<open>decode\<close> leaves the destination below \<^verbatim>\<open>write_index\<close> as it is.\<close>

lemma decode_loop_frame:
  assumes "unat (write_index s) \<le> unat (read_index s)" and "k < unat (write_index s)"
  shows "destination (decode_loop source size' s) k = destination s k"
proof -
  let ?P = "\<lambda>s'. unat (write_index s') \<le> unat (read_index s')
                \<and> unat (write_index s) \<le> unat (write_index s')
                \<and> destination s' k = destination s k"
  have "?P (decode_loop source size' s)"
  proof (rule decode_loop_invariant)
    show "?P s"
      using assms by simp
  next
    fix t :: dec_state
    assume inv: "?P t" and run: "read_index t < size'"
    show "?P (decode_iter source size' t)"
    proof (cases "unat size' < unat (read_index t) + unat (source (unat (read_index t)))
                   \<and> source (unat (read_index t)) \<noteq> 1")
      case True
      then have "decode_iter source size' t =
         t\<lparr>code := source (unat (read_index t)),
           code_reads := code_reads t @ [unat (read_index t)], rejected := True\<rparr>"
        by (simp add: decode_iter_reject)
      then show ?thesis
        using inv by simp
    next
      case False
      then have acc: "unat (read_index t) + unat (source (unat (read_index t))) \<le> unat size'
         \<or> source (unat (read_index t)) = 1" by auto
      have wr: "unat (write_index t) \<le> unat (read_index t)"
        using inv by simp
      define r where "r = unat (read_index t)"
      define w where "w = unat (write_index t)"
      define c where "c = source r"
      define n where "n = unat c - 1"
      define z where "z \<longleftrightarrow> c \<noteq> 0xFF \<and> r + 1 + n \<noteq> unat size'"
      note eff = decode_iter_effect [OF run wr acc r_def w_def c_def n_def z_def]
      have "k < w" "w \<le> r"
        using inv assms(2) wr r_def w_def by simp_all
      then show ?thesis
        unfolding eff using inv w_def by auto
    qed
  qed
  then show ?thesis
    by simp
qed


text \<open>
  One iteration of the loop of \<open>decode\<close> on a group: a code byte \<open>c \<ge> 1\<close> at \<open>r\<close> whose
  \<open>c - 1\<close> bytes lie inside the buffer.
\<close>

lemma decode_group:
  assumes r: "unat (read_index s) = r" and w: "unat (write_index s) = w" and wr: "w \<le> r"
    and c: "source r = c" and c1: "1 \<le> unat c" and fit: "r + unat c \<le> unat size'"
    and nr: "\<not> rejected s"
  shows "unat (read_index (decode_iter source size' s)) = r + unat c"
    and "\<not> rejected (decode_iter source size' s)"
    and "unat (write_index (decode_iter source size' s))
           = w + (unat c - 1) + (if c \<noteq> 0xFF \<and> r + unat c \<noteq> unat size' then 1 else 0)"
    and "c \<noteq> 0xFF \<Longrightarrow> r + unat c \<noteq> unat size' \<Longrightarrow>
           destination (decode_iter source size' s) (w + (unat c - 1)) = 0"
    and "\<forall>j<unat c - 1. destination (decode_iter source size' s) (w + j) = source (r + 1 + j)"
    and "decode_loop source size' s = decode_loop source size' (decode_iter source size' s)"
proof -
  have run: "read_index s < size'"
    using r c1 fit by (simp add: word_less_nat_alt)
  have wr': "unat (write_index s) \<le> unat (read_index s)"
    using r w wr by simp
  have acc: "unat (read_index s) + unat (source (unat (read_index s))) \<le> unat size'
                \<or> source (unat (read_index s)) = 1"
    using r c fit by simp
  define n where "n = unat c - 1"
  define z where "z \<longleftrightarrow> c \<noteq> 0xFF \<and> r + 1 + n \<noteq> unat size'"
  have rc: "r + 1 + n = r + unat c"
    using c1 n_def by simp
  note eff = decode_iter_effect [OF run wr' acc r [symmetric] w [symmetric] c [symmetric]
      n_def z_def]
  show "unat (read_index (decode_iter source size' s)) = r + unat c"
    using eff(1) rc by simp
  show "\<not> rejected (decode_iter source size' s)"
    using eff(6) nr by simp
  show "unat (write_index (decode_iter source size' s))
           = w + (unat c - 1) + (if c \<noteq> 0xFF \<and> r + unat c \<noteq> unat size' then 1 else 0)"
    using eff(2) rc by (simp add: z_def n_def)
  show "destination (decode_iter source size' s) (w + (unat c - 1)) = 0"
    if "c \<noteq> 0xFF" "r + unat c \<noteq> unat size'"
    using that rc by (simp add: eff(7) z_def n_def)
  show "\<forall>j<unat c - 1. destination (decode_iter source size' s) (w + j) = source (r + 1 + j)"
    unfolding eff(7) n_def [symmetric] by simp
  show "decode_loop source size' s = decode_loop source size' (decode_iter source size' s)"
    using run nr by (subst decode_loop.simps) simp
qed


lemma unat_code_byte: "n \<le> 254 \<Longrightarrow> unat (of_nat (n + 1) :: u8) = n + 1"
  by (simp only: unat_of_nat) simp

lemma unat_code_byte': "n \<le> 254 \<Longrightarrow> unat (1 + of_nat n :: u8) = Suc n"
  by (simp add: unat_word_ariths unat_of_nat)

text \<open>
  Where the source holds \<open>stuff cur xs\<close> from \<^verbatim>\<open>read_index\<close> to \<^verbatim>\<open>size\<close>, the loop of
  \<open>decode\<close> appends \<open>cur @ xs\<close> to the destination and does not reject.
\<close>

lemma decode_loop_stuff:
  assumes "\<forall>j<length (stuff cur xs). source (r + j) = stuff cur xs ! j"
    and "unat size' = r + length (stuff cur xs)"
    and "length cur \<le> 253"
    and "unat (read_index s) = r" and "unat (write_index s) = w" and "w \<le> r"
    and "\<not> rejected s"
  shows "\<not> rejected (decode_loop source size' s)
         \<and> unat (write_index (decode_loop source size' s)) = w + length cur + length xs
         \<and> (\<forall>j<length cur + length xs.
               destination (decode_loop source size' s) (w + j) = (cur @ xs) ! j)"
  using assms
proof (induction xs arbitrary: cur r w s)
  case Nil
  let ?c = "of_nat (length cur + 1) :: u8"
  let ?s' = "decode_iter source size' s"
  have uc: "unat ?c = length cur + 1"
    using Nil.prems(3) by (intro unat_code_byte) simp
  have c: "source r = ?c"
    using Nil.prems(1) [rule_format, of 0] by simp
  have fit: "r + unat ?c \<le> unat size'" and fin: "r + unat ?c = unat size'"
    using Nil.prems(2) uc by simp_all
  have one: "1 \<le> unat ?c"
    using uc by simp
  note g = decode_group [where source = source and size' = size', OF Nil.prems(4) Nil.prems(5) Nil.prems(6) c one fit Nil.prems(7)]
  have "unat (read_index ?s') = unat size'"
    using g(1) fin by simp
  then have "\<not> read_index ?s' < size'"
    by (simp add: word_less_nat_alt)
  then have stop: "decode_loop source size' ?s' = ?s'"
    by (subst decode_loop.simps) simp
  have "\<forall>j<length cur. destination ?s' (w + j) = cur ! j"
  proof (intro allI impI)
    fix j
    assume j: "j < length cur"
    then have "destination ?s' (w + j) = source (r + 1 + j)"
      using g(5) uc by simp
    also have "\<dots> = cur ! j"
      using Nil.prems(1) [rule_format, of "Suc j"] j by simp
    finally show "destination ?s' (w + j) = cur ! j" .
  qed
  then show ?case
    using g(2) g(3) g(6) stop fin uc by simp
next
  case (Cons x xs)
  show ?case
  proof (cases "x \<noteq> 0 \<and> length cur < 253")
    case True
    then have st: "stuff cur (x # xs) = stuff (cur @ [x]) xs"
      by simp
    have "\<not> rejected (decode_loop source size' s)
         \<and> unat (write_index (decode_loop source size' s)) = w + length (cur @ [x]) + length xs
         \<and> (\<forall>j<length (cur @ [x]) + length xs.
               destination (decode_loop source size' s) (w + j) = ((cur @ [x]) @ xs) ! j)"
      using Cons.prems True unfolding st by (intro Cons.IH) simp_all
    then show ?thesis
      by simp
  next
    case False
    define c :: u8 where "c = (if x = 0 then of_nat (length cur + 1) else 0xFF)"
    define g where "g = (if x = 0 then cur else cur @ [x])"
    define zs :: "u8 list" where "zs = (if x = 0 then [0] else [])"
    let ?E' = "stuff [] xs"
    let ?s' = "decode_iter source size' s"
    have st: "stuff cur (x # xs) = c # g @ ?E'"
      using False Cons.prems(3) by (auto simp: c_def g_def)
    have uc: "unat c = length g + 1"
      using False Cons.prems(3) by (auto simp: c_def g_def unat_code_byte')
    have cz: "c \<noteq> 0xFF \<longleftrightarrow> x = 0"
    proof -
      have "x = 0 \<Longrightarrow> unat c \<noteq> unat (0xFF :: u8)"
        using uc Cons.prems(3) by (simp add: g_def)
      then show ?thesis
        by (auto simp: c_def)
    qed
    have gz: "g @ zs = cur @ [x]"
      by (simp add: g_def zs_def)
    have "1 \<le> length ?E'"
      using length_stuff_lower [of "[]" xs] by linarith
    then have more: "0 < length ?E'"
      by linarith
    have mem: "\<forall>j<length (c # g @ ?E'). source (r + j) = (c # g @ ?E') ! j"
      using Cons.prems(1) unfolding st .
    have sz: "unat size' = r + length (c # g @ ?E')"
      using Cons.prems(2) unfolding st .
    have c: "source r = c"
      using mem [rule_format, of 0] by simp
    have fit: "r + unat c \<le> unat size'" and nfin: "r + unat c \<noteq> unat size'"
      using sz uc more by simp_all
    have one: "1 \<le> unat c"
      using uc by simp
    note grp = decode_group [where source = source and size' = size', OF Cons.prems(4) Cons.prems(5) Cons.prems(6) c one fit
        Cons.prems(7)]
    have r': "unat (read_index ?s') = r + length g + 1"
      using grp(1) uc by simp
    have w': "unat (write_index ?s') = w + length g + length zs"
      using grp(3) uc nfin cz by (simp add: zs_def)
    have le': "w + length g + length zs \<le> r + length g + 1"
      using Cons.prems(6) by (simp add: zs_def)
    have mem': "\<forall>j<length ?E'. source (r + length g + 1 + j) = ?E' ! j"
    proof (intro allI impI)
      fix j
      assume "j < length ?E'"
      then have "source (r + (1 + length g + j)) = (c # g @ ?E') ! (1 + length g + j)"
        using mem [rule_format, of "1 + length g + j"] by simp
      then show "source (r + length g + 1 + j) = ?E' ! j"
        by (simp add: nth_append ac_simps)
    qed
    have size': "unat size' = r + length g + 1 + length ?E'"
      using sz by simp
    have zero_len: "length ([]::u8 list) \<le> 253"
      by simp
    from Cons.IH [OF _ _ zero_len r' w' le' grp(2)] mem' size'
    have ih: "\<not> rejected (decode_loop source size' ?s')"
      "unat (write_index (decode_loop source size' ?s')) = w + length g + length zs + length xs"
      "\<forall>j<length xs. destination (decode_loop source size' ?s') (w + length g + length zs + j)
                = xs ! j"
      by simp_all
    have head: "\<forall>j<length (g @ zs). destination ?s' (w + j) = (g @ zs) ! j"
    proof (intro allI impI)
      fix j
      assume j: "j < length (g @ zs)"
      show "destination ?s' (w + j) = (g @ zs) ! j"
      proof (cases "j < length g")
        case True
        then have "destination ?s' (w + j) = source (r + 1 + j)"
          using grp(5) uc by simp
        also have "\<dots> = (c # g @ ?E') ! (1 + j)"
          using mem [rule_format, of "1 + j"] True by (simp add: add.assoc)
        finally show ?thesis
          using True by (simp add: nth_append)
      next
        case False
        with j have jz: "j = length g" "x = 0"
          by (auto simp: zs_def split: if_splits)
        then have "destination ?s' (w + (unat c - 1)) = 0"
          using grp(4) cz nfin by simp
        then show ?thesis
          using jz uc by (simp add: zs_def nth_append)
      qed
    qed
    have frame: "\<forall>j<length (g @ zs).
        destination (decode_loop source size' ?s') (w + j) = destination ?s' (w + j)"
    proof (intro allI impI)
      fix j
      assume "j < length (g @ zs)"
      then have "w + j < unat (write_index ?s')"
        using w' by simp
      moreover have "unat (write_index ?s') \<le> unat (read_index ?s')"
        using r' w' le' by simp
      ultimately show "destination (decode_loop source size' ?s') (w + j)
          = destination ?s' (w + j)"
        by (intro decode_loop_frame)
    qed
    have all: "\<forall>j<length cur + length (x # xs).
               destination (decode_loop source size' ?s') (w + j) = (cur @ x # xs) ! j"
    proof (intro allI impI)
      fix j
      assume j: "j < length cur + length (x # xs)"
      have split: "cur @ x # xs = (g @ zs) @ xs"
        using gz by simp
      show "destination (decode_loop source size' ?s') (w + j) = (cur @ x # xs) ! j"
      proof (cases "j < length (g @ zs)")
        case True
        have "destination (decode_loop source size' ?s') (w + j) = destination ?s' (w + j)"
          using frame True by blast
        also have "\<dots> = (g @ zs) ! j"
          using head True by blast
        also have "\<dots> = ((g @ zs) @ xs) ! j"
          using True by (simp only: nth_append if_True)
        finally show ?thesis
          unfolding split .
      next
        case False
        define i where "i = j - length (g @ zs)"
        have len: "length (g @ zs) = length cur + 1"
          using gz by (metis length_append_singleton Suc_eq_plus1)
        with False j have i: "j = length (g @ zs) + i" "i < length xs"
          by (simp_all add: i_def)
        have "destination (decode_loop source size' ?s') (w + length g + length zs + i) = xs ! i"
          using ih(3) i(2) by blast
        moreover have "((g @ zs) @ xs) ! (length (g @ zs) + i) = xs ! i"
          by (rule nth_append_length_plus)
        ultimately show ?thesis
          unfolding split i(1) by (simp add: add.assoc)
      qed
    qed
    have len: "length g + length zs = length cur + 1"
      using gz by (metis length_append length_append_singleton Suc_eq_plus1)
    show ?thesis
      using ih(1) ih(2) all len unfolding grp(6) by simp
  qed
qed


lemma bytes_eqI: "length xs = n \<Longrightarrow> \<forall>j<n. m j = xs ! j \<Longrightarrow> bytes m n = xs"
  unfolding bytes_def by (intro nth_equalityI) simp_all

lemma stuff_zeros: "stuff [] (replicate n 0) = replicate (Suc n) 1"
  by (induction n) simp_all

lemma encode_then_decode:
  assumes S: "S = bytes h (unat hs) @ bytes b (unat bs) @ bytes t (unat ts)"
    and fits: "length (stuff [] S) < 65536"
  shows "unat (encode h hs b bs t ts dest) = length (stuff [] S)"
    and "bytes (destination (encode_final h hs b bs t ts dest)) (length (stuff [] S))
           = stuff [] S"
    and "unat (decode (destination (encode_final h hs b bs t ts dest))
                 (encode h hs b bs t ts dest) dest') = length S"
    and "bytes (destination (decode_final (destination (encode_final h hs b bs t ts dest))
                 (encode h hs b bs t ts dest) dest')) (length S) = S"
    and "\<not> rejected (decode_final (destination (encode_final h hs b bs t ts dest))
                 (encode h hs b bs t ts dest) dest')"
proof -
  let ?e = "encode_final h hs b bs t ts dest"
  let ?len = "encode h hs b bs t ts dest"
  let ?f = "decode_final (destination ?e) ?len dest'"
  have ret: "unat ?len = 0 + length (stuff [] S)"
    using encode_bytes_stuff(1) [OF fits, of dest]
    by (simp add: encode_def encode_final_fields S)
  then show "unat ?len = length (stuff [] S)"
    by simp
  show enc: "bytes (destination ?e) (length (stuff [] S)) = stuff [] S"
    using encode_bytes_stuff(2) [OF fits, of dest] by (simp add: encode_final_fields S)
  have mem: "\<forall>j<length (stuff [] S). destination ?e (0 + j) = stuff [] S ! j"
  proof (intro allI impI)
    fix j
    assume "j < length (stuff [] S)"
    then have "bytes (destination ?e) (length (stuff [] S)) ! j = destination ?e j"
      by (simp add: bytes_def)
    then show "destination ?e (0 + j) = stuff [] S ! j"
      by (simp add: enc)
  qed
  have init: "unat (read_index (decode_init dest')) = 0"
    "unat (write_index (decode_init dest')) = 0" "\<not> rejected (decode_init dest')"
    by (simp_all add: decode_init_def)
  have empty: "length ([] :: u8 list) \<le> 253" and zero: "(0 :: nat) \<le> 0"
    by simp_all
  from decode_loop_stuff [OF mem ret empty init(1) init(2) zero init(3)]
  have f: "\<not> rejected ?f" "unat (write_index ?f) = length S"
    "\<forall>j<length S. destination ?f j = S ! j"
    by (simp_all add: decode_final_def)
  show "bytes (destination ?f) (length S) = S"
    using refl f(3) by (rule bytes_eqI)
  show "unat (decode (destination ?e) ?len dest') = length S"
    using f(1) f(2) by (simp add: decode_def Let_def)
  show "\<not> rejected ?f"
    by (rule f(1))
qed

text \<open>
  Claim C1, amended. For every header, body and trailer, of the bytes \<open>S\<close> together,
  whose encoding fits 16 bits, that is, \<open>length (stuff [] S) \<le> 65535\<close> (\<open>encode\<close>
  returns this length and leaves \<open>stuff [] S\<close> in the destination), and whatever the
  destinations held before: \<open>decode\<close> of the destination \<open>encode\<close> has filled, with the
  length \<open>encode\<close> has returned as its size, returns the length of \<open>S\<close>, through its
  last \<^verbatim>\<open>return\<close>, and has written \<open>S\<close>. Every \<open>S\<close> of a length \<open>n\<close> with
  \<open>n + n div 254 + 1 \<le> 65535\<close> is such a one (\<open>length_stuff_bound\<close>), and so are, for
  example, 65278 zero bytes.
\<close>

theorem round_trip:
  assumes S: "S = bytes sourceHeader (unat sourceHeaderSize)
                    @ bytes sourceBody (unat sourceBodySize)
                    @ bytes sourceTrailer (unat sourceTrailerSize)"
    and fits: "length (stuff [] S) < 65536"
  shows "unat (encode sourceHeader sourceHeaderSize sourceBody sourceBodySize
                  sourceTrailer sourceTrailerSize dest) = length (stuff [] S)
         \<and> bytes (destination (encode_final sourceHeader sourceHeaderSize sourceBody
                     sourceBodySize sourceTrailer sourceTrailerSize dest))
               (length (stuff [] S)) = stuff [] S
         \<and> unat (decode (destination (encode_final sourceHeader sourceHeaderSize sourceBody
                  sourceBodySize sourceTrailer sourceTrailerSize dest))
                (encode sourceHeader sourceHeaderSize sourceBody sourceBodySize
                  sourceTrailer sourceTrailerSize dest) dest') = length S
         \<and> bytes (destination (decode_final
                  (destination (encode_final sourceHeader sourceHeaderSize sourceBody
                     sourceBodySize sourceTrailer sourceTrailerSize dest))
                  (encode sourceHeader sourceHeaderSize sourceBody sourceBodySize
                     sourceTrailer sourceTrailerSize dest) dest')) (length S) = S
         \<and> \<not> rejected (decode_final
                  (destination (encode_final sourceHeader sourceHeaderSize sourceBody
                     sourceBodySize sourceTrailer sourceTrailerSize dest))
                  (encode sourceHeader sourceHeaderSize sourceBody sourceBodySize
                     sourceTrailer sourceTrailerSize dest) dest')"
  using encode_then_decode [OF S fits] by blast

theorem round_trip_witness:
  "length (stuff [] [1, 2, 0, 3, 4]) < 65536
   \<and> unat (decode (destination (encode_final (buffer_of [1, 2]) 2 (buffer_of [0, 3]) 2
                  (buffer_of [4]) 1 (\<lambda>k. 0)))
                (encode (buffer_of [1, 2]) 2 (buffer_of [0, 3]) 2 (buffer_of [4]) 1 (\<lambda>k. 0))
                (\<lambda>k. 0)) = 5
   \<and> bytes (destination (decode_final
                  (destination (encode_final (buffer_of [1, 2]) 2 (buffer_of [0, 3]) 2
                     (buffer_of [4]) 1 (\<lambda>k. 0)))
                  (encode (buffer_of [1, 2]) 2 (buffer_of [0, 3]) 2 (buffer_of [4]) 1 (\<lambda>k. 0))
                  (\<lambda>k. 0))) 5
       = [1, 2, 0, 3, 4]
   \<and> length (stuff [] (replicate 65278 0)) < 65536
   \<and> unat (decode (destination (encode_final (\<lambda>k. 0) 0 (\<lambda>k. 0) 65278 (\<lambda>k. 0) 0 (\<lambda>k. 0)))
                (encode (\<lambda>k. 0) 0 (\<lambda>k. 0) 65278 (\<lambda>k. 0) 0 (\<lambda>k. 0)) (\<lambda>k. 0)) = 65278"
proof -
  have small: "[1, 2, 0, 3, 4] = bytes (buffer_of [1, 2]) (unat (2 :: u16))
          @ bytes (buffer_of [0, 3]) (unat (2 :: u16)) @ bytes (buffer_of [4]) (unat (1 :: u16))"
    by (simp add: bytes_def buffer_of_def upt_rec)
  have small_fits: "length (stuff [] [1, 2, 0, 3, 4 :: u8]) < 65536"
    by simp
  have big: "replicate 65278 (0 :: u8) = bytes (\<lambda>k. 0) (unat (0 :: u16))
          @ bytes (\<lambda>k. 0) (unat (65278 :: u16)) @ bytes (\<lambda>k. 0) (unat (0 :: u16))"
    by (simp add: bytes_zero_buffer)
  have big_fits: "length (stuff [] (replicate 65278 (0 :: u8))) < 65536"
    by (simp only: stuff_zeros length_replicate)
  have small_len: "length [1, 2, 0, 3, 4 :: u8] = 5"
    by simp
  have big_len: "length (replicate 65278 (0 :: u8)) = 65278"
    by (rule length_replicate)
  from round_trip [OF small small_fits, of "\<lambda>k. 0" "\<lambda>k. 0"]
  have "unat (decode (destination (encode_final (buffer_of [1, 2]) 2 (buffer_of [0, 3]) 2
                  (buffer_of [4]) 1 (\<lambda>k. 0)))
                (encode (buffer_of [1, 2]) 2 (buffer_of [0, 3]) 2 (buffer_of [4]) 1 (\<lambda>k. 0))
                (\<lambda>k. 0)) = 5
   \<and> bytes (destination (decode_final
                  (destination (encode_final (buffer_of [1, 2]) 2 (buffer_of [0, 3]) 2
                     (buffer_of [4]) 1 (\<lambda>k. 0)))
                  (encode (buffer_of [1, 2]) 2 (buffer_of [0, 3]) 2 (buffer_of [4]) 1 (\<lambda>k. 0))
                  (\<lambda>k. 0))) 5
       = [1, 2, 0, 3, 4]"
    unfolding small_len by blast
  moreover from round_trip [OF big big_fits, of "\<lambda>k. 0" "\<lambda>k. 0"]
  have "unat (decode (destination (encode_final (\<lambda>k. 0) 0 (\<lambda>k. 0) 65278 (\<lambda>k. 0) 0 (\<lambda>k. 0)))
                (encode (\<lambda>k. 0) 0 (\<lambda>k. 0) 65278 (\<lambda>k. 0) 0 (\<lambda>k. 0)) (\<lambda>k. 0)) = 65278"
    unfolding big_len by blast
  ultimately show ?thesis
    using small_fits big_fits by blast
qed

text \<open>
  The claim C1 as it is stated, for every length up to 65535, fails: for a body of 65535
  zero bytes \<^verbatim>\<open>write_index\<close> wraps around, \<open>encode\<close> returns 0, and \<open>decode\<close> of no byte
  returns 0, not 65535.
\<close>

theorem round_trip_fails_at_65535:
  "unat (decode (destination (encode_final (\<lambda>k. 0) 0 (\<lambda>k. 0) 65535 (\<lambda>k. 0) 0 (\<lambda>k. 0)))
           (encode (\<lambda>k. 0) 0 (\<lambda>k. 0) 65535 (\<lambda>k. 0) 0 (\<lambda>k. 0)) (\<lambda>k. 0))
     \<noteq> unat (65535 :: u16)"
proof -
  have "encode (\<lambda>k. 0) 0 (\<lambda>k. 0) 65535 (\<lambda>k. 0) 0 (\<lambda>k. 0) = 0"
    by (simp add: encode_zeros)
  moreover have "decode source 0 dest = 0" for source dest
    by (simp add: decode_def decode_final_def decode_init_def decode_loop.simps Let_def)
  ultimately show ?thesis
    by simp
qed

text \<open>
  No other input makes the round trip: \<open>encode\<close> returns the length of \<open>stuff [] S\<close>
  modulo \<open>2 ^ 16\<close>, and when that length is 65536 or more \<open>decode\<close> returns less than
  the length of \<open>S\<close>.
\<close>

lemma fold_feed_write_index:
  "unat (code s) = length cur + 1 \<Longrightarrow> length cur \<le> 253 \<Longrightarrow>
   write_index (foldl (\<lambda>s x. feed x s) s xs) + of_nat (length cur + 1)
     = write_index s + of_nat (length (stuff cur xs))"
proof (induction xs arbitrary: cur s)
  case Nil
  show ?case by simp
next
  case (Cons x xs)
  show ?case
  proof (cases "x = 0")
    case True
    have "unat (code (feed 0 s)) = length ([] :: u8 list) + 1"
      "write_index (feed 0 s) = write_index s + 1"
      by (simp_all add: feed_zero close_run_def poke_def)
    with Cons.IH [of "feed 0 s" "[]"] True show ?thesis
      by (simp add: algebra_simps)
  next
    case nz: False
    let ?s1 = "(poke (write_index s) x s)\<lparr>write_index := write_index s + 1, code := code s + 1\<rparr>"
    have c1: "unat (code ?s1) = length cur + 2"
      using Cons.prems by (simp add: poke_def unat_word_ariths)
    show ?thesis
    proof (cases "length cur = 253")
      case True
      then have "unat (code ?s1) = unat (0xFF :: u8)"
        using c1 by simp
      then have "code ?s1 = 0xFF"
        by (simp only: word_unat_eq_iff)
      then have f: "feed x s = close_run ?s1"
        using nz by (simp add: feed_def Let_def)
      have "unat (code (feed x s)) = length ([] :: u8 list) + 1"
        "write_index (feed x s) = write_index s + 2"
        unfolding f by (simp_all add: close_run_def poke_def)
      with Cons.IH [of "feed x s" "[]"] True nz show ?thesis
        by (simp add: algebra_simps)
    next
      case False
      then have "unat (code ?s1) \<noteq> unat (0xFF :: u8)"
        using c1 Cons.prems(2) by simp
      then have "code ?s1 \<noteq> 0xFF"
        by metis
      then have f: "feed x s = ?s1"
        using nz by (simp add: feed_def Let_def)
      have "unat (code (feed x s)) = length (cur @ [x]) + 1"
        "write_index (feed x s) = write_index s + 1" "length (cur @ [x]) \<le> 253"
        unfolding f using c1 False Cons.prems(2) by (simp_all add: poke_def)
      with Cons.IH [of "feed x s" "cur @ [x]"] False nz show ?thesis
        by (simp add: algebra_simps)
    qed
  qed
qed

lemma encode_of_nat_length:
  "encode h hs b bs t ts dest
     = of_nat (length (stuff [] (bytes h (unat hs) @ bytes b (unat bs) @ bytes t (unat ts))))"
proof -
  let ?S = "bytes h (unat hs) @ bytes b (unat bs) @ bytes t (unat ts)"
  have "unat (code (enc_init dest)) = length ([] :: u8 list) + 1"
    and "length ([] :: u8 list) \<le> 253"
    by (simp_all add: enc_init_def)
  from fold_feed_write_index [OF this, of ?S]
  have "write_index (foldl (\<lambda>s x. feed x s) (enc_init dest) ?S)
          = of_nat (length (stuff [] ?S))"
    by (simp add: enc_init_def)
  then show ?thesis
    by (simp add: encode_def encode_final_fields encode_bytes_def Let_def poke_def)
qed

lemma decode_at_most_size: "unat (decode source size' dest) \<le> unat size'"
  using within_final [of size' source dest] by (simp add: decode_def Let_def within_def)

lemma decode_short_when_wrapped:
  assumes S: "S = bytes h (unat hs) @ bytes b (unat bs) @ bytes t (unat ts)"
    and big: "65536 \<le> length (stuff [] S)"
  shows "unat (decode (destination (encode_final h hs b bs t ts dest))
                 (encode h hs b bs t ts dest) dest') < length S"
proof -
  have "unat hs < 65536" "unat bs < 65536" "unat ts < 65536"
    using unsigned_less [of hs, where ?'a = nat] unsigned_less [of bs, where ?'a = nat]
      unsigned_less [of ts, where ?'a = nat]
    by simp_all
  then have n: "length S < 196608"
    by (simp add: S length_bytes)
  have up: "length (stuff [] S) \<le> length S + length S div 254 + 1"
    by (rule length_stuff_bound)
  have "unat (encode h hs b bs t ts dest) = length (stuff [] S) mod 65536"
    by (simp add: encode_of_nat_length S unat_of_nat)
  also have "\<dots> = (length (stuff [] S) - 65536) mod 65536"
    using big by (simp add: le_mod_geq)
  also have "\<dots> \<le> length (stuff [] S) - 65536"
    by (rule mod_less_eq_dividend)
  finally have "unat (encode h hs b bs t ts dest) \<le> length (stuff [] S) - 65536" .
  moreover have "unat (decode (destination (encode_final h hs b bs t ts dest))
                 (encode h hs b bs t ts dest) dest') \<le> unat (encode h hs b bs t ts dest)"
    by (rule decode_at_most_size)
  ultimately show ?thesis
    using up n big by linarith
qed

end
